theory Spec2Isabelle
  imports Main "HOL-Library.Word" "HOL-Library.Char_ord" "HOL-Library.List_Lexorder"
begin

section \<open>Data model\<close>

text \<open>
  The program (\<^verbatim>\<open>main.go\<close>) drives the go-git library. The library's objects are
  modelled by what the program reads from them:
  \<^item> a \<^verbatim>\<open>plumbing.Hash\<close> is identified with its hexadecimal rendering
    \<^verbatim>\<open>Hash.String()\<close> (40 characters for the 20 bytes of a real hash);
  \<^item> a \<^verbatim>\<open>time.Time\<close> is the wall clock reading Go stores: a signed 64-bit count of
    seconds and the nanoseconds within the second;
  \<^item> a Go \<^verbatim>\<open>error\<close> is a value of \<open>git_error\<close>; \<^verbatim>\<open>nil\<close> is \<open>None\<close>.
  Strings are sequences of bytes; the order on them (\<^verbatim>\<open>sort.Strings\<close>) is the
  lexicographic order of the bytes.
\<close>

type_synonym hash = string

datatype git_error =
    ErrTagNotFound
  | ErrTagExists
  | ErrReferenceNotFound
  | ErrRepositoryNotExists
  | ErrRemoteNotFound
  | ErrIsBareRepository
  | NoErrAlreadyUpToDate
  | ErrNonFastForwardUpdate
  | ErrObjectNotFound
  | ErrTemplateExec
  | ErrHomeDir
  | ErrBadPattern
  | ErrExec
  | ErrIO string

subsection \<open>Time\<close>

text \<open>
  A \<^verbatim>\<open>time.Time\<close> without monotonic clock reading, as go-git builds it when it
  decodes a commit: \<open>sec\<close> is the field \<^verbatim>\<open>ext\<close>, the seconds since January 1 of
  year 1 as an \<^verbatim>\<open>int64\<close>, and \<open>nsec\<close> the nanoseconds, from 0 to 999999999.
\<close>

record gotime =
  sec :: "64 word"
  nsec :: int

text \<open>
  \<^verbatim>\<open>time.Unix(ts, 0)\<close>, which go-git applies to the timestamp \<open>ts\<close> written in a
  commit: the seconds between year 1 and 1970 are added, and the \<^verbatim>\<open>int64\<close> sum
  wraps around.
\<close>

definition Unix :: "64 word \<Rightarrow> gotime" where
  "Unix ts = \<lparr>sec = ts + 62135596800, nsec = 0\<rparr>"

text \<open>\<^verbatim>\<open>time.Second\<close>, a \<^verbatim>\<open>Duration\<close> in nanoseconds.\<close>

definition Second :: int where
  "Second = 1000000000"

text \<open>
  \<^verbatim>\<open>t.Add(d)\<close>: the duration is split into seconds and nanoseconds (Go's division
  truncates towards zero), the nanoseconds are carried, and \<^verbatim>\<open>addSec\<close> adds the
  seconds: when the \<^verbatim>\<open>int64\<close> sum overflows, the result is the largest, respectively
  the smallest, instant instead.
\<close>

definition Add :: "gotime \<Rightarrow> int \<Rightarrow> gotime" where
  "Add t d =
     (let dsec0 = sgn d * (\<bar>d\<bar> div 1000000000);
          n0 = nsec t + (d - 1000000000 * dsec0);
          dsec = (if 1000000000 \<le> n0 then dsec0 + 1 else if n0 < 0 then dsec0 - 1 else dsec0);
          n = (if 1000000000 \<le> n0 then n0 - 1000000000 else if n0 < 0 then n0 + 1000000000 else n0);
          sum = sec t + word_of_int dsec
      in \<lparr>sec = (if (sint (sec t) < sint sum) = (0 < dsec) then sum
                 else if 0 < dsec then 9223372036854775807
                 else - 9223372036854775807),
          nsec = n\<rparr>)"

text \<open>\<^verbatim>\<open>t.Before(u)\<close>: the seconds are compared as signed numbers, then the
  nanoseconds.\<close>

definition Before :: "gotime \<Rightarrow> gotime \<Rightarrow> bool" where
  "Before t u = (sint (sec t) < sint (sec u) \<or> sec t = sec u \<and> nsec t < nsec u)"

subsection \<open>Objects of go-git\<close>

text \<open>\<^verbatim>\<open>plumbing.Reference\<close>: a hash reference, name and target.\<close>

record reference =
  ref_Name :: string
  ref_Hash :: hash

text \<open>\<^verbatim>\<open>object.Signature\<close> and \<^verbatim>\<open>object.Commit\<close>, the fields the program reads.\<close>

record signature =
  Name :: string
  Email :: string
  When :: gotime

record commit =
  Hash :: hash
  Author :: signature
  Committer :: signature
  Message :: string
  ParentHashes :: "hash list"

text \<open>
  \<^verbatim>\<open>git.Repository\<close>: the reference store (\<open>refs\<close>, by full reference name), the
  name of the reference that \<^verbatim>\<open>HEAD\<close> resolves to, the commit objects, the
  configured remotes (name and URLs), and whether the repository has no worktree.
  \<open>ref_read_fault\<close> and \<open>ref_write_fault\<close> are the I/O failures of the reference
  store: reading, respectively writing, the named reference fails with that error.
\<close>

record repository =
  refs :: "string \<Rightarrow> hash option"
  HEAD :: string
  objects :: "commit list"
  remotes :: "(string \<times> string list) list"
  bare :: bool
  ref_read_fault :: "string \<Rightarrow> git_error option"
  ref_write_fault :: "string \<Rightarrow> git_error option"

section \<open>Paths\<close>

text \<open>\<^verbatim>\<open>strings.Split(s, sep)\<close> for a separator of one character, and
  \<^verbatim>\<open>strings.Join(elems, sep)\<close>.\<close>

fun Split :: "string \<Rightarrow> char \<Rightarrow> string list" where
  "Split [] sep = [[]]"
| "Split (c # cs) sep =
     (if c = sep then [] # Split cs sep
      else (case Split cs sep of [] \<Rightarrow> [[c]] | x # xs \<Rightarrow> (c # x) # xs))"

fun strings_Join :: "string list \<Rightarrow> string \<Rightarrow> string" where
  "strings_Join [] sep = []"
| "strings_Join [x] sep = x"
| "strings_Join (x # y # ys) sep = x @ sep @ strings_Join (y # ys) sep"

text \<open>
  \<^verbatim>\<open>path.Clean(p)\<close> (on Unix, \<^verbatim>\<open>filepath.Clean\<close> is the same function): the path
  is read element by element; an empty element and \<^verbatim>\<open>.\<close> are dropped; \<^verbatim>\<open>..\<close>
  removes the element before it, is dropped at the root, and is kept at the start of a
  relative path. \<open>clean_step\<close> processes one element; \<open>out\<close> holds the elements kept
  so far, the last one first.
\<close>

definition clean_step :: "bool \<Rightarrow> string list \<Rightarrow> string \<Rightarrow> string list" where
  "clean_step rooted out e =
     (if e = [] \<or> e = ''.'' then out
      else if e = ''..'' then
        (case out of
           [] \<Rightarrow> if rooted then [] else [''..'']
         | x # xs \<Rightarrow> if x = ''..'' then ''..'' # out else xs)
      else e # out)"

definition Clean :: "string \<Rightarrow> string" where
  "Clean p =
     (if p = [] then ''.''
      else
        (let rooted = (hd p = CHR ''/'');
             body = strings_Join (rev (foldl (clean_step rooted) [] (Split p CHR ''/''))) ''/''
         in if rooted then CHR ''/'' # body
            else if body = [] then ''.'' else body))"

text \<open>
  \<^verbatim>\<open>path.Join(elem...)\<close> and, on Unix, \<^verbatim>\<open>filepath.Join(elem...)\<close>: the elements
  from the first non-empty one are joined with slashes and the result is cleaned; the
  result is empty when every element is empty.
\<close>

definition Join :: "string list \<Rightarrow> string" where
  "Join elem =
     (case dropWhile (\<lambda>e. e = []) elem of
        [] \<Rightarrow> []
      | es \<Rightarrow> Clean (strings_Join es ''/''))"

section \<open>The reference store of go-git\<close>

definition TagName :: string where
  "TagName = ''Updated.At''"

text \<open>\<^verbatim>\<open>plumbing.NewTagReferenceName(t)\<close>: the prefix \<^verbatim>\<open>refs/tags/\<close> and the name,
  concatenated.\<close>

definition NewTagReferenceName :: "string \<Rightarrow> string" where
  "NewTagReferenceName t = ''refs/tags/'' @ t"

definition NewHashReference :: "string \<Rightarrow> hash \<Rightarrow> reference" where
  "NewHashReference n h = \<lparr>ref_Name = n, ref_Hash = h\<rparr>"

text \<open>\<^verbatim>\<open>r.Storer.Reference(name)\<close>.\<close>

definition Storer_Reference :: "repository \<Rightarrow> string \<Rightarrow> git_error + reference" where
  "Storer_Reference r n =
     (case ref_read_fault r n of
        Some e \<Rightarrow> Inl e
      | None \<Rightarrow>
          (case refs r n of
             None \<Rightarrow> Inl ErrReferenceNotFound
           | Some h \<Rightarrow> Inr (NewHashReference n h)))"

text \<open>\<^verbatim>\<open>r.Storer.SetReference(ref)\<close>: the error (if any) and the repository after.\<close>

definition Storer_SetReference :: "repository \<Rightarrow> reference \<Rightarrow> git_error option \<times> repository" where
  "Storer_SetReference r rf =
     (case ref_write_fault r (ref_Name rf) of
        Some e \<Rightarrow> (Some e, r)
      | None \<Rightarrow> (None, r\<lparr>refs := (refs r)(ref_Name rf \<mapsto> ref_Hash rf)\<rparr>))"

text \<open>
  \<^verbatim>\<open>r.Tag(name)\<close>: the reference looked up is
  \<^verbatim>\<open>path.Join("refs", "tags", name)\<close>, so the name is cleaned as a path; a missing
  reference is reported as \<open>ErrTagNotFound\<close>, any other error of the lookup as it is.
\<close>

definition Tag :: "repository \<Rightarrow> string \<Rightarrow> git_error + reference" where
  "Tag r t =
     (case Storer_Reference r (Join [''refs'', ''tags'', t]) of
        Inl e \<Rightarrow> (if e = ErrReferenceNotFound then Inl ErrTagNotFound else Inl e)
      | Inr rf \<Rightarrow> Inr rf)"

text \<open>\<^verbatim>\<open>r.CreateTag(name, hash, nil)\<close>: a lightweight tag under
  \<^verbatim>\<open>plumbing.NewTagReferenceName(name)\<close>; refuses an existing tag.\<close>

definition CreateTag :: "repository \<Rightarrow> string \<Rightarrow> hash \<Rightarrow> (git_error + reference) \<times> repository" where
  "CreateTag r t h =
     (case Storer_Reference r (NewTagReferenceName t) of
        Inr rf \<Rightarrow> (Inl ErrTagExists, r)
      | Inl e \<Rightarrow>
          if e = ErrReferenceNotFound then
            (let rf = NewHashReference (NewTagReferenceName t) h in
             case Storer_SetReference r rf of
               (Some e', r') \<Rightarrow> (Inl e', r')
             | (None, r') \<Rightarrow> (Inr rf, r'))
          else (Inl e, r))"

text \<open>\<^verbatim>\<open>r.Head()\<close>.\<close>

definition Head :: "repository \<Rightarrow> git_error + reference" where
  "Head r = Storer_Reference r (HEAD r)"

section \<open>The marker manager\<close>

text \<open>
  \<^verbatim>\<open>CreateOrModifyGitTag(r, t, ref)\<close>. The Go function returns a pointer and an
  error; the pointer is \<open>None\<close> when it is \<^verbatim>\<open>nil\<close>. The \<^verbatim>\<open>switch\<close> has the two
  cases \<^verbatim>\<open>nil\<close> and \<^verbatim>\<open>git.ErrTagNotFound\<close> and no default: on any other error of
  the lookup, control reaches \<^verbatim>\<open>return tag, nil\<close> with the \<^verbatim>\<open>nil\<close> tag of the
  failed lookup.
\<close>

definition CreateOrModifyGitTag ::
    "repository \<Rightarrow> string \<Rightarrow> reference \<Rightarrow> (git_error + reference option) \<times> repository" where
  "CreateOrModifyGitTag r t rf =
     (case Tag r t of
        Inr tag \<Rightarrow>
          (let tag' = NewHashReference (ref_Name tag) (ref_Hash rf) in
           case Storer_SetReference r tag' of
             (Some e, r') \<Rightarrow> (Inl e, r')
           | (None, r') \<Rightarrow> (Inr (Some tag'), r'))
      | Inl e \<Rightarrow>
          if e = ErrTagNotFound then
            (case CreateTag r TagName (ref_Hash rf) of
               (Inl e', r') \<Rightarrow> (Inl e', r')
             | (Inr tag', r') \<Rightarrow> (Inr (Some tag'), r'))
          else (Inr None, r))"

section \<open>The commit graph and its traversal\<close>

text \<open>\<^verbatim>\<open>r.CommitObject(h)\<close>: the commit stored under the hash \<open>h\<close>.\<close>

definition CommitObject :: "commit list \<Rightarrow> hash \<Rightarrow> git_error + commit" where
  "CommitObject st h =
     (case find (\<lambda>c. Hash c = h) st of
        None \<Rightarrow> Inl ErrObjectNotFound
      | Some c \<Rightarrow> Inr c)"

text \<open>
  go-git's pre-order commit iterator (\<^verbatim>\<open>object.NewCommitPreorderIter\<close>), run to its
  end: the commits it yields, in order, and the error that ended it (\<open>None\<close> for
  \<^verbatim>\<open>io.EOF\<close>). The state is the set of hashes seen and a stack of pending parent
  lists. The next pending hash is loaded from the object store (a missing object ends
  the iteration with an error); a commit already seen is skipped; a new commit is
  marked seen, its unseen parents are pushed, and it is yielded.
\<close>

function walk :: "commit list \<Rightarrow> hash set \<Rightarrow> hash list list \<Rightarrow> commit list \<times> git_error option" where
  "walk st seen [] = ([], None)"
| "walk st seen ([] # stack) = walk st seen stack"
| "walk st seen ((h # hs) # stack) =
     (case find (\<lambda>c. Hash c = h) st of
        None \<Rightarrow> ([], Some ErrObjectNotFound)
      | Some c \<Rightarrow>
          if h \<in> seen then walk st seen (hs # stack)
          else
            (case walk st (insert h seen)
                    (if ParentHashes c = [] then hs # stack
                     else filter (\<lambda>p. p \<notin> insert h seen) (ParentHashes c) # hs # stack) of
               (ys, e) \<Rightarrow> (c # ys, e)))"
  by pat_completeness auto
termination
proof (relation "measures
    [\<lambda>(st, seen, stack). card (Hash ` set st - seen),
     \<lambda>(st, seen, stack). sum_list (map (\<lambda>l. Suc (length l)) stack)]")
  show "wf (measures
    [\<lambda>(st, seen, stack). card (Hash ` set st - seen),
     \<lambda>(st, seen, stack). sum_list (map (\<lambda>l. Suc (length l)) stack)])"
    by simp
next
  fix st :: "commit list" and seen :: "hash set" and stack :: "hash list list"
  show "((st, seen, stack), (st, seen, [] # stack)) \<in> measures
    [\<lambda>(st, seen, stack). card (Hash ` set st - seen),
     \<lambda>(st, seen, stack). sum_list (map (\<lambda>l. Suc (length l)) stack)]"
    by simp
next
  fix st :: "commit list" and seen :: "hash set" and h :: hash and hs :: "hash list"
    and stack :: "hash list list" and c :: commit
  show "((st, seen, hs # stack), (st, seen, (h # hs) # stack)) \<in> measures
    [\<lambda>(st, seen, stack). card (Hash ` set st - seen),
     \<lambda>(st, seen, stack). sum_list (map (\<lambda>l. Suc (length l)) stack)]"
    by simp
next
  fix st :: "commit list" and seen :: "hash set" and h :: hash and hs :: "hash list"
    and stack :: "hash list list" and c :: commit
  assume f: "find (\<lambda>c. Hash c = h) st = Some c" and ns: "h \<notin> seen"
  from f have "c \<in> set st" "Hash c = h"
    by (auto simp: find_Some_iff)
  then have hin: "h \<in> Hash ` set st - seen"
    using ns by auto
  have eq: "Hash ` set st - insert h seen = (Hash ` set st - seen) - {h}"
    by auto
  have "finite (Hash ` set st - seen)"
    by simp
  then have "card ((Hash ` set st - seen) - {h}) < card (Hash ` set st - seen)"
    using hin by (rule card_Diff1_less)
  then have "card (Hash ` set st - insert h seen) < card (Hash ` set st - seen)"
    by (simp only: eq)
  then show "((st, insert h seen,
        if ParentHashes c = [] then hs # stack
        else filter (\<lambda>p. p \<notin> insert h seen) (ParentHashes c) # hs # stack),
       (st, seen, (h # hs) # stack)) \<in> measures
    [\<lambda>(st, seen, stack). card (Hash ` set st - seen),
     \<lambda>(st, seen, stack). sum_list (map (\<lambda>l. Suc (length l)) stack)]"
    by simp
qed

text \<open>
  Ancestry in the object store: \<open>reach st a b\<close> when \<open>b\<close> is \<open>a\<close> or is reached
  from \<open>a\<close> along parent links of stored commits.
\<close>

inductive reach :: "commit list \<Rightarrow> hash \<Rightarrow> hash \<Rightarrow> bool" for st :: "commit list" and a :: hash where
  reach_refl: "reach st a a"
| reach_step: "reach st a b \<Longrightarrow> find (\<lambda>c. Hash c = b) st = Some c \<Longrightarrow> p \<in> set (ParentHashes c)
                 \<Longrightarrow> reach st a p"

section \<open>The environment\<close>

text \<open>
  What the program takes from its surroundings:
  \<^item> \<open>Color\<close> is termenv's template function \<^verbatim>\<open>Color\<close> (colour code, then text) and
    \<open>Format\<close> is \<^verbatim>\<open>time.Time.Format "2006-01-02"\<close>;
  \<^item> \<open>UserHomeDir\<close> is the result of \<^verbatim>\<open>os.UserHomeDir()\<close>;
  \<^item> \<open>ReadDir d\<close> is the list of names \<^verbatim>\<open>Readdirnames\<close> gives for the directory \<open>d\<close>,
    in the order of the file system, and \<open>None\<close> when \<open>d\<close> cannot be opened as a
    directory; \<open>Lstat p\<close> tells whether \<^verbatim>\<open>os.Lstat(p)\<close> succeeds;
  \<^item> \<open>Run\<close> is the outcome of running an external command;
  \<^item> \<open>schedule\<close> is the order in which the scheduler lets the workers run, and
    \<open>crash_window\<close> the number of steps the other goroutines still take after a
    panicking worker has run its deferred \<^verbatim>\<open>wg.Done()\<close> and before the runtime
    ends the process.
\<close>

record env =
  Color :: "string \<Rightarrow> string \<Rightarrow> string"
  Format :: "gotime \<Rightarrow> string"
  UserHomeDir :: "git_error + string"
  ReadDir :: "string \<Rightarrow> string list option"
  Lstat :: "string \<Rightarrow> bool"
  Run :: "string list \<Rightarrow> git_error option"
  schedule :: "string list \<Rightarrow> string list"
  crash_window :: nat

section \<open>Shell patterns\<close>

text \<open>
  \<^verbatim>\<open>filepath.Match\<close> on Unix, byte by byte (Go reads UTF-8 sequences). \<open>getEsc\<close>
  reads one, possibly escaped, character of a character class and returns it with the
  rest of the chunk, which must not be empty.
\<close>

definition getEsc :: "string \<Rightarrow> git_error + char \<times> string" where
  "getEsc chunk =
     (case chunk of
        [] \<Rightarrow> Inl ErrBadPattern
      | c # cs \<Rightarrow>
          if c = CHR ''-'' \<or> c = CHR '']'' then Inl ErrBadPattern
          else
            (case (if c = CHR 0x5C then cs else chunk) of
               [] \<Rightarrow> Inl ErrBadPattern
             | r # n \<Rightarrow> if n = [] then Inl ErrBadPattern else Inr (r, n)))"

text \<open>
  The loop of \<^verbatim>\<open>matchChunk\<close> that parses the ranges of a character class after
  \<^verbatim>\<open>[\<close> (and \<^verbatim>\<open>^\<close>): \<open>r\<close> is the character of the name, \<open>nrange\<close> the number of
  ranges read, \<open>match\<close> whether one of them holds \<open>r\<close>. The result is \<open>match\<close> and
  the chunk after the closing \<^verbatim>\<open>]\<close>.
\<close>

function ranges :: "char \<Rightarrow> string \<Rightarrow> nat \<Rightarrow> bool \<Rightarrow> git_error + bool \<times> string" where
  "ranges r chunk nrange match =
     (if chunk \<noteq> [] \<and> hd chunk = CHR '']'' \<and> 0 < nrange then Inr (match, tl chunk)
      else
        (case getEsc chunk of
           Inl e \<Rightarrow> Inl e
         | Inr (lo, chunk1) \<Rightarrow>
             if hd chunk1 = CHR ''-'' then
               (case getEsc (tl chunk1) of
                  Inl e \<Rightarrow> Inl e
                | Inr (hi, chunk2) \<Rightarrow> ranges r chunk2 (Suc nrange) (match \<or> (lo \<le> r \<and> r \<le> hi)))
             else ranges r chunk1 (Suc nrange) (match \<or> lo = r)))"
  by pat_completeness auto
termination
proof -
  have getEsc_length: "length n < length chunk" if "getEsc chunk = Inr (r, n)"
    for chunk :: string and r :: char and n :: string
    using that by (auto simp: getEsc_def split: list.splits if_splits)
  show ?thesis
  proof (relation "measure (\<lambda>(r, chunk, nrange, match). length chunk)")
    show "wf (measure (\<lambda>(r, chunk, nrange, match). length chunk))"
      by simp
  next
    fix r :: char and chunk :: string and nrange :: nat and match :: bool
      and x2 :: "char \<times> string" and lo :: char and chunk1 :: string
      and x2a :: "char \<times> string" and hi :: char and chunk2 :: string
    assume "getEsc chunk = Inr x2" "(lo, chunk1) = x2" "getEsc (tl chunk1) = Inr x2a"
      "(hi, chunk2) = x2a"
    then have "length chunk1 < length chunk" "length chunk2 < length (tl chunk1)"
      using getEsc_length[of chunk lo chunk1] getEsc_length[of "tl chunk1" hi chunk2] by auto
    then show "((r, chunk2, Suc nrange, match \<or> lo \<le> r \<and> r \<le> hi), r, chunk, nrange, match)
         \<in> measure (\<lambda>(r, chunk, nrange, match). length chunk)"
      by simp
  next
    fix r :: char and chunk :: string and nrange :: nat and match :: bool
      and x2 :: "char \<times> string" and lo :: char and chunk1 :: string
    assume "getEsc chunk = Inr x2" "(lo, chunk1) = x2"
    then have "length chunk1 < length chunk"
      using getEsc_length[of chunk lo chunk1] by auto
    then show "((r, chunk1, Suc nrange, match \<or> lo = r), r, chunk, nrange, match)
         \<in> measure (\<lambda>(r, chunk, nrange, match). length chunk)"
      by simp
  qed
qed

text \<open>
  \<^verbatim>\<open>matchChunk(chunk, s)\<close>: the chunk is matched against the start of \<open>s\<close>. Once
  the match has failed (\<open>failed\<close>), the loop goes on over the chunk to check that it
  is well formed, without reading \<open>s\<close>. The result is the rest of \<open>s\<close> and whether
  the chunk matched.
\<close>

function mc :: "bool \<Rightarrow> string \<Rightarrow> string \<Rightarrow> git_error + string \<times> bool" where
  "mc failed [] s = (if failed then Inr ([], False) else Inr (s, True))"
| "mc failed (c # cs) s =
     (if c = CHR ''['' then
        (case ranges (if failed \<or> s = [] then CHR 0x00 else hd s)
                (if cs \<noteq> [] \<and> hd cs = CHR ''^'' then tl cs else cs) 0 False of
           Inl e \<Rightarrow> Inl e
         | Inr (match, cs2) \<Rightarrow>
             mc (failed \<or> s = [] \<or> match = (cs \<noteq> [] \<and> hd cs = CHR ''^'')) cs2
                (if failed \<or> s = [] then s else tl s))
      else if c = CHR ''?'' then
        (if failed \<or> s = [] then mc True cs s else mc (hd s = CHR ''/'') cs (tl s))
      else if c = CHR 0x5C then
        (case cs of
           [] \<Rightarrow> Inl ErrBadPattern
         | d # ds \<Rightarrow> if failed \<or> s = [] then mc True ds s else mc (d \<noteq> hd s) ds (tl s))
      else (if failed \<or> s = [] then mc True cs s else mc (c \<noteq> hd s) cs (tl s)))"
  by pat_completeness auto
termination
proof -
  have getEsc_length: "length n < length chunk" if "getEsc chunk = Inr (r, n)"
    for chunk :: string and r :: char and n :: string
    using that by (auto simp: getEsc_def split: list.splits if_splits)
  have ranges_length: "length rest < length chunk" if "ranges r chunk nrange match = Inr (m, rest)"
    for r :: char and chunk :: string and nrange :: nat and match m :: bool and rest :: string
    using that
  proof (induction r chunk nrange match rule: ranges.induct)
    case (1 r chunk nrange match)
    show ?case
    proof (cases "chunk \<noteq> [] \<and> hd chunk = CHR '']'' \<and> 0 < nrange")
      case True
      with "1.prems" show ?thesis
        by (cases chunk) (auto simp: ranges.simps[of r chunk])
    next
      case False
      from "1.prems" False obtain lo chunk1 where g1: "getEsc chunk = Inr (lo, chunk1)"
        by (auto simp: ranges.simps[of r chunk] split: sum.splits)
      from getEsc_length[OF g1] have l1: "length chunk1 < length chunk" .
      show ?thesis
      proof (cases "hd chunk1 = CHR ''-''")
        case hy: True
        from "1.prems" False g1 hy obtain hi chunk2 where g2: "getEsc (tl chunk1) = Inr (hi, chunk2)"
          by (auto simp: ranges.simps[of r chunk] split: sum.splits)
        from "1.prems" False g1 hy g2
        have "ranges r chunk2 (Suc nrange) (match \<or> (lo \<le> r \<and> r \<le> hi)) = Inr (m, rest)"
          by (simp add: ranges.simps[of r chunk])
        from "1.IH"(1)[OF False g1 refl hy g2 refl this] getEsc_length[OF g2] l1
        show ?thesis by auto
      next
        case hn: False
        from "1.prems" False g1 hn
        have "ranges r chunk1 (Suc nrange) (match \<or> lo = r) = Inr (m, rest)"
          by (simp add: ranges.simps[of r chunk])
        from "1.IH"(2)[OF False g1 refl hn this] l1 show ?thesis by simp
      qed
    qed
  qed
  show ?thesis
  proof (relation "measure (\<lambda>(failed, chunk, s). length chunk)")
    show "wf (measure (\<lambda>(failed, chunk, s). length chunk))"
      by simp
  next
    fix failed :: bool and c :: char and cs s :: string and x2 :: "bool \<times> string"
      and match :: bool and cs2 :: string
    assume "ranges (if failed \<or> s = [] then CHR 0x00 else hd s)
              (if cs \<noteq> [] \<and> hd cs = CHR ''^'' then tl cs else cs) 0 False = Inr x2"
      and "(match, cs2) = x2"
    then have "length cs2 < length (if cs \<noteq> [] \<and> hd cs = CHR ''^'' then tl cs else cs)"
      using ranges_length by metis
    then have "length cs2 < length (c # cs)"
      by (auto split: if_splits)
    then show "((failed \<or> s = [] \<or> match = (cs \<noteq> [] \<and> hd cs = CHR ''^''), cs2,
           if failed \<or> s = [] then s else tl s), failed, c # cs, s)
         \<in> measure (\<lambda>(failed, chunk, s). length chunk)"
      by simp
  qed auto
qed

definition matchChunk :: "string \<Rightarrow> string \<Rightarrow> git_error + string \<times> bool" where
  "matchChunk chunk s = mc False chunk s"

text \<open>
  \<^verbatim>\<open>scanChunk(pattern)\<close>: the leading stars are dropped and the pattern is cut before
  the next star that stands outside a character class. \<open>scan\<close> is the length of the
  chunk. The result is whether there was a star, the chunk, and the rest.
\<close>

fun scan :: "bool \<Rightarrow> string \<Rightarrow> nat" where
  "scan inrange [] = 0"
| "scan inrange (c # cs) =
     (if c = CHR 0x5C then (case cs of [] \<Rightarrow> 1 | d # ds \<Rightarrow> 2 + scan inrange ds)
      else if c = CHR ''['' then 1 + scan True cs
      else if c = CHR '']'' then 1 + scan False cs
      else if c = CHR ''*'' \<and> \<not> inrange then 0
      else 1 + scan inrange cs)"

definition scanChunk :: "string \<Rightarrow> bool \<times> string \<times> string" where
  "scanChunk pattern =
     (let p = dropWhile (\<lambda>c. c = CHR ''*'') pattern
      in (pattern \<noteq> [] \<and> hd pattern = CHR ''*'', take (scan False p) p, drop (scan False p) p))"

text \<open>
  \<^verbatim>\<open>Match(pattern, name)\<close>. \<open>Match\<close> is the outer loop over the chunks of the
  pattern; \<open>Match_skip\<close> is the inner loop that, after a star, looks for a match of the
  chunk further on in the name, never across a slash; \<open>Match_rest\<close> is the final
  loop, which checks that the chunks not reached are well formed before the answer
  \<^verbatim>\<open>false\<close> is given.
\<close>

function Match_rest :: "string \<Rightarrow> git_error + bool" where
  "Match_rest pattern =
     (if pattern = [] then Inr False
      else
        (case scanChunk pattern of
           (star, chunk, rest) \<Rightarrow>
             (case matchChunk chunk [] of
                Inl e \<Rightarrow> Inl e
              | Inr res \<Rightarrow> Match_rest rest)))"
  by pat_completeness auto
termination
proof -
  have scanChunk_rest: "length rest < length pattern"
    if "pattern \<noteq> []" and "scanChunk pattern = (star, chunk, rest)"
    for pattern chunk rest :: string and star :: bool
  proof (cases "hd pattern = CHR ''*''")
    case True
    with that(1) obtain cs where "pattern = CHR ''*'' # cs"
      by (cases pattern) auto
    then have "length (dropWhile (\<lambda>c. c = CHR ''*'') pattern) < length pattern"
      using length_dropWhile_le[of "\<lambda>c. c = CHR ''*''" cs] by simp
    with that(2) show ?thesis
      by (auto simp: scanChunk_def Let_def)
  next
    case False
    with that(1) obtain c cs where p: "pattern = c # cs" "c \<noteq> CHR ''*''"
      by (cases pattern) auto
    then have "dropWhile (\<lambda>c. c = CHR ''*'') pattern = pattern"
      by simp
    with that(2) have "rest = drop (scan False pattern) pattern"
      by (simp add: scanChunk_def Let_def)
    moreover from p(2) have "0 < scan False (c # cs)"
      by (auto split: list.splits)
    ultimately show ?thesis
      using p by simp
  qed
  show ?thesis
    by (relation "measure length") (auto dest: scanChunk_rest[OF _ sym])
qed

function Match :: "string \<Rightarrow> string \<Rightarrow> git_error + bool"
  and Match_skip :: "string \<Rightarrow> string \<Rightarrow> string \<Rightarrow> git_error + bool" where
  "Match pattern name =
     (if pattern = [] then Inr (name = [])
      else
        (case scanChunk pattern of
           (star, chunk, rest) \<Rightarrow>
             if star \<and> chunk = [] then Inr (CHR ''/'' \<notin> set name)
             else
               (case matchChunk chunk name of
                  Inl e \<Rightarrow> Inl e
                | Inr (t, ok) \<Rightarrow>
                    if ok \<and> (t = [] \<or> rest \<noteq> []) then Match rest t
                    else if star then Match_skip chunk rest name
                    else Match_rest rest)))"
| "Match_skip chunk rest name =
     (case name of
        [] \<Rightarrow> Match_rest rest
      | c # cs \<Rightarrow>
          if c = CHR ''/'' then Match_rest rest
          else
            (case matchChunk chunk cs of
               Inl e \<Rightarrow> Inl e
             | Inr (t, ok) \<Rightarrow>
                 if ok then (if rest = [] \<and> t \<noteq> [] then Match_skip chunk rest cs else Match rest t)
                 else Match_skip chunk rest cs))"
  by pat_completeness auto
termination
proof -
  have scanChunk_rest: "length rest < length pattern"
    if "pattern \<noteq> []" and "scanChunk pattern = (star, chunk, rest)"
    for pattern chunk rest :: string and star :: bool
  proof (cases "hd pattern = CHR ''*''")
    case True
    with that(1) obtain cs where "pattern = CHR ''*'' # cs"
      by (cases pattern) auto
    then have "length (dropWhile (\<lambda>c. c = CHR ''*'') pattern) < length pattern"
      using length_dropWhile_le[of "\<lambda>c. c = CHR ''*''" cs] by simp
    with that(2) show ?thesis
      by (auto simp: scanChunk_def Let_def)
  next
    case False
    with that(1) obtain c cs where p: "pattern = c # cs" "c \<noteq> CHR ''*''"
      by (cases pattern) auto
    then have "dropWhile (\<lambda>c. c = CHR ''*'') pattern = pattern"
      by simp
    with that(2) have "rest = drop (scan False pattern) pattern"
      by (simp add: scanChunk_def Let_def)
    moreover from p(2) have "0 < scan False (c # cs)"
      by (auto split: list.splits)
    ultimately show ?thesis
      using p by simp
  qed
  show ?thesis
  proof (relation "measures
      [\<lambda>x. case x of Inl (p, n) \<Rightarrow> length p | Inr (c, r, n) \<Rightarrow> Suc (length r),
       \<lambda>x. case x of Inl (p, n) \<Rightarrow> Suc (length n) | Inr (c, r, n) \<Rightarrow> length n]")
    show "wf (measures
      [\<lambda>x. case x of Inl (p, n) \<Rightarrow> length p | Inr (c, r, n) \<Rightarrow> Suc (length r),
       \<lambda>x. case x of Inl (p, n) \<Rightarrow> Suc (length n) | Inr (c, r, n) \<Rightarrow> length n])"
      by simp
  qed (auto dest: scanChunk_rest[OF _ sym] intro: Suc_lessI)
qed

section \<open>Globbing\<close>

text \<open>
  \<^verbatim>\<open>filepath.Glob\<close> on Unix. \<open>hasMeta\<close> tells whether a path holds one of the
  characters \<^verbatim>\<open>*?[\<close> and the backslash; \<open>filepath_Split\<close> cuts a path after its
  last slash; \<open>cleanGlobPath\<close> prepares the directory part for the next step.
\<close>

definition hasMeta :: "string \<Rightarrow> bool" where
  "hasMeta path = list_ex (\<lambda>c. c = CHR ''*'' \<or> c = CHR ''?'' \<or> c = CHR ''['' \<or> c = CHR 0x5C) path"

definition filepath_Split :: "string \<Rightarrow> string \<times> string" where
  "filepath_Split path =
     (let file = rev (takeWhile (\<lambda>c. c \<noteq> CHR ''/'') (rev path))
      in (take (length path - length file) path, file))"

definition cleanGlobPath :: "string \<Rightarrow> string" where
  "cleanGlobPath path =
     (if path = [] then ''.''
      else if path = ''/'' then path
      else butlast path)"

text \<open>
  \<^verbatim>\<open>glob(dir, pattern, matches)\<close>: the names of the directory are sorted, and the
  path of every name that matches the pattern is appended to \<open>matches\<close>. A directory
  that cannot be read adds nothing; a malformed pattern is an error.
\<close>

fun glob_names :: "string \<Rightarrow> string \<Rightarrow> string list \<Rightarrow> string list \<Rightarrow> git_error + string list" where
  "glob_names dir pattern [] m = Inr m"
| "glob_names dir pattern (n # ns) m =
     (case Match pattern n of
        Inl e \<Rightarrow> Inl e
      | Inr matched \<Rightarrow> glob_names dir pattern ns (if matched then m @ [Join [dir, n]] else m))"

definition glob :: "env \<Rightarrow> string \<Rightarrow> string \<Rightarrow> string list \<Rightarrow> git_error + string list" where
  "glob env dir pattern matches =
     (case ReadDir env dir of
        None \<Rightarrow> Inr matches
      | Some names \<Rightarrow> glob_names dir pattern (sort names) matches)"

fun glob_dirs :: "env \<Rightarrow> string \<Rightarrow> string list \<Rightarrow> string list \<Rightarrow> git_error + string list" where
  "glob_dirs env file [] matches = Inr matches"
| "glob_dirs env file (d # ds) matches =
     (case glob env d file matches of
        Inl e \<Rightarrow> Inl e
      | Inr m \<Rightarrow> glob_dirs env file ds m)"

text \<open>
  \<^verbatim>\<open>globWithLimit(pattern, depth)\<close>: the pattern is checked first (by matching it
  against the empty name); a pattern without special characters names one path; when
  only the last element has special characters, the directory is read; otherwise the
  directory part is expanded first, and every directory found is read.
\<close>

function globWithLimit :: "env \<Rightarrow> string \<Rightarrow> nat \<Rightarrow> git_error + string list" where
  "globWithLimit env pattern depth =
     (if depth = 10000 then Inl ErrBadPattern
      else
        (case Match pattern [] of
           Inl e \<Rightarrow> Inl e
         | Inr matched \<Rightarrow>
             if \<not> hasMeta pattern then (if Lstat env pattern then Inr [pattern] else Inr [])
             else if \<not> hasMeta (cleanGlobPath (fst (filepath_Split pattern))) then
               glob env (cleanGlobPath (fst (filepath_Split pattern))) (snd (filepath_Split pattern)) []
             else if cleanGlobPath (fst (filepath_Split pattern)) = pattern then Inl ErrBadPattern
             else
               (case globWithLimit env (cleanGlobPath (fst (filepath_Split pattern))) (Suc depth) of
                  Inl e \<Rightarrow> Inl e
                | Inr m \<Rightarrow> glob_dirs env (snd (filepath_Split pattern)) m [])))"
  by pat_completeness auto
termination
proof -
  have shorter: "length (cleanGlobPath (fst (filepath_Split pattern))) < length pattern"
    if "hasMeta (cleanGlobPath (fst (filepath_Split pattern)))" for pattern :: string
  proof -
    have le: "length (fst (filepath_Split pattern)) \<le> length pattern"
      by (simp add: filepath_Split_def Let_def)
    from that have "fst (filepath_Split pattern) \<noteq> []" "fst (filepath_Split pattern) \<noteq> ''/''"
      by (auto simp: cleanGlobPath_def hasMeta_def split: if_splits)
    then have "length (cleanGlobPath (fst (filepath_Split pattern))) < length (fst (filepath_Split pattern))"
      by (simp add: cleanGlobPath_def)
    with le show ?thesis
      by simp
  qed
  show ?thesis
    by (relation "measure (\<lambda>(env, pattern, depth). length pattern)") (auto dest: shorter)
qed

definition Glob :: "env \<Rightarrow> string \<Rightarrow> git_error + string list" where
  "Glob env pattern = globWithLimit env pattern 0"

section \<open>Rendering a commit\<close>

text \<open>\<^verbatim>\<open>Signature.String()\<close>: \<^verbatim>\<open>fmt.Sprintf("%s <%s>", s.Name, s.Email)\<close>.\<close>

definition Signature_String :: "signature \<Rightarrow> string" where
  "Signature_String s = Name s @ '' <'' @ Email s @ ''>''"

text \<open>
  \<^verbatim>\<open>strings.ReplaceAll(s, old, new)\<close>: the non-overlapping instances of \<open>old\<close>, from
  the left, are replaced by \<open>new\<close>. An empty \<open>old\<close> matches before every character
  and at the end (byte-wise here; Go counts UTF-8 sequences).
\<close>

function replaceAll :: "string \<Rightarrow> string \<Rightarrow> string \<Rightarrow> string" where
  "replaceAll [] old new = (if old = [] then new else [])"
| "replaceAll (c # cs) old new =
     (if old = [] then new @ c # replaceAll cs old new
      else if take (length old) (c # cs) = old
        then new @ replaceAll (drop (length old) (c # cs)) old new
      else c # replaceAll cs old new)"
  by pat_completeness auto
termination
  by (relation "measure (\<lambda>(s, old, new). length s)") auto

text \<open>
  Executing the template \<^verbatim>\<open>commitBrief\<close> on a commit: the text written to the
  buffer and the error, if any. The template writes a tab, the coloured date and a
  space; then \<^verbatim>\<open>slice .Hash.String 0 6\<close>, which fails when the string is shorter than
  6 (what was written before stays in the buffer); then the author, a newline, two
  tabs, the message with \<^verbatim>\<open>"\n"\<close> replaced by \<^verbatim>\<open>"\n\t\t"\<close>, and a newline.
\<close>

definition commitBrief :: "env \<Rightarrow> commit \<Rightarrow> string \<times> git_error option" where
  "commitBrief env c =
     (let pre = [CHR 0x09] @ Color env ''140'' (Format env (When (Committer c))) @ '' '' in
      if length (Hash c) < 6 then (pre, Some ErrTemplateExec)
      else
        (pre @ Color env ''104'' (take 6 (Hash c)) @ '' ''
           @ Color env ''111'' (Signature_String (Author c)) @ [CHR 0x0A]
           @ [CHR 0x09] @ [CHR 0x09]
           @ Color env ''108'' (replaceAll (Message c) [CHR 0x0A] [CHR 0x0A, CHR 0x09, CHR 0x09])
           @ [CHR 0x0A],
         None))"

section \<open>Commit enumeration\<close>

text \<open>
  \<^verbatim>\<open>r.Log(&git.LogOptions{Since: &t})\<close>: the iterator starts at the commit of
  \<^verbatim>\<open>HEAD\<close> (an error when it cannot be loaded) and skips every commit \<open>c\<close> with
  \<^verbatim>\<open>c.Committer.When.Before(t)\<close>. The result is the iterator run to its end: the
  commits it yields and the error that ended it.
\<close>

definition Log :: "repository \<Rightarrow> gotime \<Rightarrow> git_error + (commit list \<times> git_error option)" where
  "Log r t =
     (case Head r of
        Inl e \<Rightarrow> Inl e
      | Inr head \<Rightarrow>
          (case CommitObject (objects r) (ref_Hash head) of
             Inl e \<Rightarrow> Inl e
           | Inr c \<Rightarrow>
               (case walk (objects r) {} [[Hash c]] of
                  (ys, e) \<Rightarrow> Inr (filter (\<lambda>c. \<not> Before (When (Committer c)) t) ys, e))))"

text \<open>
  \<^verbatim>\<open>cIter.ForEach(f)\<close> with the callback of \<^verbatim>\<open>GetGitLog\<close>: for every commit the
  counter is incremented, then the template is executed into the buffer; an error of
  the template stops the iteration, and the error that ended the iterator is returned
  when the callback never failed.
\<close>

fun ForEach :: "env \<Rightarrow> commit list \<Rightarrow> git_error option \<Rightarrow> nat \<Rightarrow> string \<Rightarrow> nat \<times> string \<times> git_error option" where
  "ForEach env [] e n buf = (n, buf, e)"
| "ForEach env (c # cs) e n buf =
     (case commitBrief env c of
        (s, Some err) \<Rightarrow> (Suc n, buf @ s, Some err)
      | (s, None) \<Rightarrow> ForEach env cs e (Suc n) (buf @ s))"

text \<open>
  \<^verbatim>\<open>GetGitLog(r, ref, n)\<close>: the text, the error and the counter after the call.
  The commit of \<^verbatim>\<open>ref\<close> is loaded and the enumeration starts at
  \<^verbatim>\<open>c.Committer.When.Add(time.Second)\<close>.
  The result is \<open>None\<close> when \<^verbatim>\<open>ref\<close> is \<^verbatim>\<open>nil\<close>: \<^verbatim>\<open>ref.Hash()\<close> then panics.
\<close>

definition GetGitLog :: "env \<Rightarrow> repository \<Rightarrow> reference option \<Rightarrow> nat \<Rightarrow> (string \<times> git_error option \<times> nat) option" where
  "GetGitLog env r rf n =
     (case rf of
        None \<Rightarrow> None
      | Some tag \<Rightarrow>
          Some (case CommitObject (objects r) (ref_Hash tag) of
                  Inl e \<Rightarrow> ('''', Some e, n)
                | Inr c \<Rightarrow>
                    (case Log r (Add (When (Committer c)) Second) of
                       Inl e \<Rightarrow> ('''', Some e, n)
                     | Inr (cs, e) \<Rightarrow>
                         (case ForEach env cs e n '''' of
                            (n', buf, e') \<Rightarrow> (buf, e', n')))))"

section \<open>The sync executor\<close>

text \<open>
  What one pull meets on the remote side, supplied by the environment:
  \<^item> \<open>UpToDate\<close>: the pull reports \<^verbatim>\<open>git.NoErrAlreadyUpToDate\<close>;
  \<^item> \<open>Advance objs tip reset\<close>: the fetch stores the commits \<open>objs\<close> and the remote
    branch is at \<open>tip\<close>; \<open>reset\<close> is the error, if any, of resetting the worktree
    afterwards;
  \<^item> \<open>Fails e\<close>: the pull stops with the error \<open>e\<close> before changing anything.
\<close>

datatype pull_step =
    UpToDate
  | Advance "commit list" hash "git_error option"
  | Fails git_error

text \<open>go-git's \<^verbatim>\<open>isFastForward(s, old, new)\<close>: walks the commits from \<open>new\<close> until it
  meets \<open>old\<close>; an error of the walk before that is returned.\<close>

definition isFastForward :: "commit list \<Rightarrow> hash \<Rightarrow> hash \<Rightarrow> git_error + bool" where
  "isFastForward st old new =
     (case CommitObject st new of
        Inl e \<Rightarrow> Inl e
      | Inr c \<Rightarrow>
          (case walk st {} [[Hash c]] of
             (ys, e) \<Rightarrow>
               if old \<in> Hash ` set ys then Inr True
               else (case e of Some err \<Rightarrow> Inl err | None \<Rightarrow> Inr False)))"

text \<open>
  \<^verbatim>\<open>w.Pull(&git.PullOptions{})\<close>: go-git merges by fast-forward only. The fetched
  objects are added to the store (a stored object is never replaced); when the head is
  not an ancestor of the remote tip the pull fails with \<open>ErrNonFastForwardUpdate\<close>;
  otherwise the head reference is moved to the tip and the worktree is reset.
\<close>

definition Worktree_Pull :: "repository \<Rightarrow> pull_step \<Rightarrow> git_error option \<times> repository" where
  "Worktree_Pull r step =
     (case step of
        UpToDate \<Rightarrow> (Some NoErrAlreadyUpToDate, r)
      | Fails e \<Rightarrow> (Some e, r)
      | Advance objs tip reset \<Rightarrow>
          (let r1 = r\<lparr>objects := objects r @ objs\<rparr>;
               update = (case Storer_SetReference r1 (NewHashReference (HEAD r1) tip) of
                           (Some e, r2) \<Rightarrow> (Some e, r2)
                         | (None, r2) \<Rightarrow> (reset, r2))
           in case Head r1 of
                Inl e \<Rightarrow> if e = ErrReferenceNotFound then update else (Some e, r1)
              | Inr head \<Rightarrow>
                  (case isFastForward (objects r1) (ref_Hash head) tip of
                     Inl e \<Rightarrow> (Some e, r1)
                   | Inr ff \<Rightarrow> if ff then update else (Some ErrNonFastForwardUpdate, r1))))"

text \<open>
  \<^verbatim>\<open>PullGitChanges(r)\<close>: \<^verbatim>\<open>r.Worktree()\<close> fails on a repository without a
  worktree; otherwise the error of the pull is compared with
  \<^verbatim>\<open>git.NoErrAlreadyUpToDate\<close> and dropped.
\<close>

definition PullGitChanges :: "repository \<Rightarrow> pull_step \<Rightarrow> (bool \<times> git_error option) \<times> repository" where
  "PullGitChanges r step =
     (if bare r then ((False, Some ErrIsBareRepository), r)
      else
        (case Worktree_Pull r step of
           (err, r') \<Rightarrow>
             if err = Some NoErrAlreadyUpToDate then ((False, None), r')
             else ((True, None), r')))"

section \<open>The worker\<close>

text \<open>\<^verbatim>\<open>r.Remote(name)\<close>: the URLs of the remote's configuration.\<close>

definition Remote :: "repository \<Rightarrow> string \<Rightarrow> git_error + string list" where
  "Remote r n =
     (case map_of (remotes r) n of
        None \<Rightarrow> Inl ErrRemoteNotFound
      | Some urls \<Rightarrow> Inr urls)"

text \<open>
  The process as the workers share it: the repositories on disk by path (what
  \<^verbatim>\<open>git.PlainOpen\<close> finds there), the global \<^verbatim>\<open>restartEmacsIsNeeded\<close>, what was
  printed to standard output, and the sequence of events of the run
  (\<open>WorkerDone p\<close> is the worker's deferred \<^verbatim>\<open>wg.Done()\<close>, \<open>RestartEmacs\<close> the call
  of \<^verbatim>\<open>restartEmacs()\<close>, \<open>Command s\<close> the start of an external command).
\<close>

datatype printed = Fetched string nat | LocalPath string | LogText string

datatype event = WorkerDone string | RestartEmacs | Command "string list"

record world =
  disk :: "string \<Rightarrow> git_error + repository"
  restartEmacsIsNeeded :: bool
  stdout :: "printed list"
  trace :: "event list"

text \<open>
  How a worker ends: \<open>Fatal e\<close> is \<^verbatim>\<open>log.Fatal(err)\<close>, which exits the process at
  once, without running the deferred call; \<open>Panic\<close> is a run-time panic (a \<^verbatim>\<open>nil\<close>
  dereference or an index out of range): the deferred \<^verbatim>\<open>wg.Done()\<close> runs, and the
  runtime ends the process afterwards; \<open>Done n\<close> is a return, with the number \<open>n\<close>
  of commits the worker counted.
\<close>

datatype outcome = Fatal git_error | Panic | Done nat

text \<open>
  \<^verbatim>\<open>UpdateEmacsStraightRepo(p, wg)\<close>, with the step the pull of this run meets.
  The error of \<^verbatim>\<open>GetGitLog\<close> is assigned and never read. With a positive count the
  flag is set before the arguments of the first \<^verbatim>\<open>Println\<close> are evaluated, where
  \<^verbatim>\<open>URLs[0]\<close> panics for a remote without URL.
\<close>

definition UpdateEmacsStraightRepo :: "env \<Rightarrow> pull_step \<Rightarrow> string \<Rightarrow> world \<Rightarrow> outcome \<times> world" where
  "UpdateEmacsStraightRepo env step p w =
     (case disk w p of
        Inl e \<Rightarrow> (Fatal e, w)
      | Inr r \<Rightarrow>
          (case Head r of
             Inl e \<Rightarrow> (Fatal e, w)
           | Inr head \<Rightarrow>
               (case Remote r ''origin'' of
                  Inl e \<Rightarrow> (Fatal e, w)
                | Inr urls \<Rightarrow>
                    (case CreateOrModifyGitTag r TagName head of
                       (Inl e, r1) \<Rightarrow> (Fatal e, w\<lparr>disk := (disk w)(p := Inr r1)\<rparr>)
                     | (Inr tag, r1) \<Rightarrow>
                         (case PullGitChanges r1 step of
                            ((changed, Some e), r2) \<Rightarrow> (Fatal e, w\<lparr>disk := (disk w)(p := Inr r2)\<rparr>)
                          | ((changed, None), r2) \<Rightarrow>
                              (let w2 = w\<lparr>disk := (disk w)(p := Inr r2)\<rparr> in
                               case GetGitLog env r2 tag 0 of
                                 None \<Rightarrow> (Panic, w2\<lparr>trace := trace w2 @ [WorkerDone p]\<rparr>)
                               | Some (l, err, n) \<Rightarrow>
                                   if n > 0 then
                                     (case urls of
                                        [] \<Rightarrow> (Panic, w2\<lparr>restartEmacsIsNeeded := True,
                                                           trace := trace w2 @ [WorkerDone p]\<rparr>)
                                      | url # rest \<Rightarrow>
                                          (Done n,
                                           w2\<lparr>restartEmacsIsNeeded := True,
                                              stdout := stdout w2 @ [Fetched url n, LocalPath p, LogText l],
                                              trace := trace w2 @ [WorkerDone p]\<rparr>))
                                   else (Done n, w2\<lparr>trace := trace w2 @ [WorkerDone p]\<rparr>)))))))"

section \<open>The main program\<close>

text \<open>\<^verbatim>\<open>ListEmacsStraightRepos()\<close>: the glob of
  \<^verbatim>\<open>filepath.Join(home, ".emacs.d/straight/repos", "*")\<close>.\<close>

definition ListEmacsStraightRepos :: "env \<Rightarrow> git_error + string list" where
  "ListEmacsStraightRepos env =
     (case UserHomeDir env of
        Inl e \<Rightarrow> Inl e
      | Inr home \<Rightarrow> Glob env (Join [home, ''.emacs.d/straight/repos'', ''*'']))"

text \<open>
  A panic does not end the process at once: between the deferred \<^verbatim>\<open>wg.Done()\<close> of
  the panicking worker and the exit, the other goroutines go on. The state of this
  race is \<open>None\<close> as long as no worker has panicked, and \<open>Some k\<close> when the process
  ends after \<open>k\<close> more steps of the others (a worker that runs, \<^verbatim>\<open>main\<close> passing the
  barrier, a command that is started). \<open>tick\<close> is one such step; \<open>panicked\<close> is the
  state after a worker has panicked.
\<close>

definition tick :: "nat option \<Rightarrow> nat option" where
  "tick b = map_option (\<lambda>k. k - 1) b"

definition panicked :: "env \<Rightarrow> nat option \<Rightarrow> nat option" where
  "panicked env b = (case b of None \<Rightarrow> Some (crash_window env) | Some k \<Rightarrow> Some (k - 1))"

text \<open>\<^verbatim>\<open>restartEmacs()\<close>: the two commands in order; the first failure is fatal.\<close>

fun runCommands :: "env \<Rightarrow> string list \<Rightarrow> nat option \<Rightarrow> world \<Rightarrow> git_error option \<times> nat option \<times> world" where
  "runCommands env [] b w = (None, b, w)"
| "runCommands env (v # vs) b w =
     (if b = Some 0 then (None, b, w)
      else
        (let s = Split v CHR '' ''; w' = w\<lparr>trace := trace w @ [Command s]\<rparr> in
         case Run env s of
           Some e \<Rightarrow> (Some e, b, w')
         | None \<Rightarrow> runCommands env vs (tick b) w'))"

definition restartEmacs :: "env \<Rightarrow> nat option \<Rightarrow> world \<Rightarrow> git_error option \<times> nat option \<times> world" where
  "restartEmacs env b w =
     runCommands env [''emacsclient -e (kill-emacs)'', ''emacs -nw --daemon''] b
       (w\<lparr>trace := trace w @ [RestartEmacs]\<rparr>)"

text \<open>
  The workers of one run. Each worker runs on its own repository and shares only the
  flag, the output and the event trace with the others, so the run is modelled as the
  workers taken one after the other in the order the scheduler lets them finish. A
  worker that ends by \<^verbatim>\<open>log.Fatal\<close> ends the process there. After a worker that
  panics, the workers that follow still run as long as the process lives. The result
  is what every worker that ran ended with, the state of the race, and the process
  state.
\<close>

fun workers :: "env \<Rightarrow> (string \<Rightarrow> pull_step) \<Rightarrow> string list \<Rightarrow> nat option \<Rightarrow> world
    \<Rightarrow> (outcome \<times> string) list \<times> nat option \<times> world" where
  "workers env net [] b w = ([], b, w)"
| "workers env net (p # ps) b w =
     (if b = Some 0 then ([], b, w)
      else
        (case UpdateEmacsStraightRepo env (net p) p w of
           (Fatal e, w') \<Rightarrow> ([(Fatal e, p)], b, w')
         | (Panic, w') \<Rightarrow>
             (case workers env net ps (panicked env b) w' of
                (os, b', w'') \<Rightarrow> ((Panic, p) # os, b', w''))
         | (Done n, w') \<Rightarrow>
             (case workers env net ps (tick b) w' of
                (os, b', w'') \<Rightarrow> ((Done n, p) # os, b', w''))))"

text \<open>How the process ends: status 0, \<^verbatim>\<open>log.Fatal\<close>, or a panic.\<close>

datatype exit = Exit0 | Exit1 git_error | Crash

text \<open>
  Whether the process ended while the workers ran: by the \<^verbatim>\<open>log.Fatal\<close> of a
  worker, or by a panic whose time ran out before \<^verbatim>\<open>main\<close> passed the barrier.
\<close>

definition aborted :: "(outcome \<times> string) list \<Rightarrow> nat option \<Rightarrow> exit option" where
  "aborted os b =
     (case filter (\<lambda>(out, p). case out of Fatal e \<Rightarrow> True | _ \<Rightarrow> False) os of
        (Fatal e, p) # rest \<Rightarrow> Some (Exit1 e)
      | _ \<Rightarrow> if b = Some 0 then Some Crash else None)"

text \<open>
  \<^verbatim>\<open>main()\<close>, from the repositories on disk: the exit status, what every worker
  that ran ended with, and the process state at the end. \<^verbatim>\<open>wg.Wait()\<close> returns once
  every worker has called \<^verbatim>\<open>wg.Done()\<close>; a process in which a worker has panicked
  ends with the status of the panic unless a \<^verbatim>\<open>log.Fatal\<close> comes first.
\<close>

definition main :: "env \<Rightarrow> (string \<Rightarrow> pull_step) \<Rightarrow> (string \<Rightarrow> git_error + repository)
    \<Rightarrow> exit \<times> (outcome \<times> string) list \<times> world" where
  "main env net d =
     (let w0 = \<lparr>disk = d, restartEmacsIsNeeded = False, stdout = [], trace = []\<rparr> in
      case ListEmacsStraightRepos env of
        Inl e \<Rightarrow> (Exit1 e, [], w0)
      | Inr repos \<Rightarrow>
          (case workers env net (schedule env repos) None w0 of
             (os, b, w1) \<Rightarrow>
               (case aborted os b of
                  Some ex \<Rightarrow> (ex, os, w1)
                | None \<Rightarrow>
                    if restartEmacsIsNeeded w1 then
                      (case restartEmacs env (tick b) w1 of
                         (Some e, b2, w2) \<Rightarrow> (Exit1 e, os, w2)
                       | (None, b2, w2) \<Rightarrow> (if b2 = None then Exit0 else Crash, os, w2))
                    else (if b = None then Exit0 else Crash, os, w1))))"

section \<open>Concrete repositories\<close>

text \<open>Small repositories and environments on which the theorems below are exercised.\<close>

definition env0 :: env where
  "env0 = \<lparr>Color = (\<lambda>code s. s), Format = (\<lambda>t. ''2024-05-01''),
            UserHomeDir = Inr ''/home/u'',
            ReadDir = (\<lambda>d. if d = ''/home/u/.emacs.d/straight/repos'' then Some [''two'', ''one'']
                           else None),
            Lstat = (\<lambda>p. False),
            Run = (\<lambda>s. None),
            schedule = (\<lambda>ps. ps),
            crash_window = 0\<rparr>"

text \<open>The two paths the lister finds in \<open>env0\<close>.\<close>

definition path_one :: string where
  "path_one = ''/home/u/.emacs.d/straight/repos/one''"

definition path_two :: string where
  "path_two = ''/home/u/.emacs.d/straight/repos/two''"

definition dev :: "gotime \<Rightarrow> signature" where
  "dev t = \<lparr>Name = ''dev'', Email = ''dev@example.org'', When = t\<rparr>"

definition commit_a :: commit where
  "commit_a = \<lparr>Hash = ''a1a1a1a1'', Author = dev (Unix 100), Committer = dev (Unix 100),
                Message = ''first'', ParentHashes = []\<rparr>"

definition commit_b :: commit where
  "commit_b = \<lparr>Hash = ''b2b2b2b2'', Author = dev (Unix 200), Committer = dev (Unix 200),
                Message = [CHR ''x'', CHR 0x0A, CHR ''y'', CHR 0x0A], ParentHashes = [''a1a1a1a1'']\<rparr>"

definition commit_c :: commit where
  "commit_c = \<lparr>Hash = ''c3c3c3c3'', Author = dev (Unix 300), Committer = dev (Unix 300),
                Message = ''third'', ParentHashes = [''b2b2b2b2'']\<rparr>"

text \<open>A commit whose committer time is earlier than its parent's.\<close>

definition commit_skew :: commit where
  "commit_skew = \<lparr>Hash = ''d4d4d4d4'', Author = dev (Unix 50), Committer = dev (Unix 50),
                   Message = ''skewed clock'', ParentHashes = [''a1a1a1a1'']\<rparr>"

definition no_fault :: "string \<Rightarrow> git_error option" where
  "no_fault n = None"

text \<open>Head at \<open>commit_b\<close>, no marker yet.\<close>

definition repo_ab :: repository where
  "repo_ab = \<lparr>refs = [''refs/heads/master'' \<mapsto> ''b2b2b2b2''], HEAD = ''refs/heads/master'',
               objects = [commit_a, commit_b],
               remotes = [(''origin'', [''https://example.org/x.git''])], bare = False,
               ref_read_fault = no_fault, ref_write_fault = no_fault\<rparr>"

text \<open>Head at \<open>commit_b\<close>, the marker at \<open>commit_a\<close>.\<close>

definition repo_tagged :: repository where
  "repo_tagged = repo_ab\<lparr>refs := [''refs/heads/master'' \<mapsto> ''b2b2b2b2'',
                                    ''refs/tags/Updated.At'' \<mapsto> ''a1a1a1a1'']\<rparr>"

text \<open>The same, when the marker's reference cannot be read.\<close>

definition repo_unreadable :: repository where
  "repo_unreadable = repo_tagged\<lparr>ref_read_fault :=
      (\<lambda>n. if n = ''refs/tags/Updated.At'' then Some (ErrIO ''permission denied'') else None)\<rparr>"

text \<open>A repository without a worktree.\<close>

definition repo_bare :: repository where
  "repo_bare = repo_tagged\<lparr>bare := True\<rparr>"

text \<open>Head at \<open>commit_skew\<close>, whose parent \<open>commit_a\<close> carries a later committer time.\<close>

definition repo_skew :: repository where
  "repo_skew = repo_ab\<lparr>refs := [''refs/heads/master'' \<mapsto> ''d4d4d4d4''],
                         objects := [commit_a, commit_skew]\<rparr>"

definition head_b :: reference where
  "head_b = \<lparr>ref_Name = ''refs/heads/master'', ref_Hash = ''b2b2b2b2''\<rparr>"

definition world_of :: "(string \<Rightarrow> git_error + repository) \<Rightarrow> world" where
  "world_of d = \<lparr>disk = d, restartEmacsIsNeeded = False, stdout = [], trace = []\<rparr>"

definition no_disk :: "string \<Rightarrow> git_error + repository" where
  "no_disk p = Inl ErrRepositoryNotExists"

definition marker_a :: reference where
  "marker_a = \<lparr>ref_Name = ''refs/tags/Updated.At'', ref_Hash = ''a1a1a1a1''\<rparr>"

text \<open>A shallow clone: head and marker at \<open>commit_b\<close>, whose parent was never fetched.\<close>

definition repo_shallow_b :: repository where
  "repo_shallow_b = repo_ab\<lparr>objects := [commit_b]\<rparr>"

definition env_no_home :: env where
  "env_no_home = env0\<lparr>UserHomeDir := Inl ErrHomeDir\<rparr>"

text \<open>A home directory without the directory of the repositories; a home directory
  whose name holds a bracket, with one repository.\<close>

definition env_no_match :: env where
  "env_no_match = env0\<lparr>ReadDir := (\<lambda>d. None)\<rparr>"

definition env_bracket :: env where
  "env_bracket = env0\<lparr>UserHomeDir := Inr ''/home/a[b'',
      ReadDir := (\<lambda>d. if d = ''/home/a[b/.emacs.d/straight/repos'' then Some [''one''] else None)\<rparr>"

text \<open>A disk with two repositories.\<close>

definition disk_two :: "string \<Rightarrow> git_error + repository" where
  "disk_two = no_disk(''/r/one'' := Inr repo_ab, ''/r/two'' := Inr repo_tagged)"

definition disk_one :: "string \<Rightarrow> git_error + repository" where
  "disk_one = no_disk(''/r/one'' := Inr repo_ab)"

text \<open>A network where the remote of the first path has the new commit \<open>commit_c\<close> and
  every other remote has nothing new; a disk with two repositories at the paths the
  lister finds in \<open>env0\<close>, a disk where the second path holds no repository, and a
  disk where the marker of the second repository cannot be read.\<close>

definition net0 :: "string \<Rightarrow> pull_step" where
  "net0 p = (if p = path_one then Advance [commit_c] ''c3c3c3c3'' None else UpToDate)"

definition disk_home :: "string \<Rightarrow> git_error + repository" where
  "disk_home = no_disk(path_one := Inr repo_ab, path_two := Inr repo_tagged)"

definition disk_missing :: "string \<Rightarrow> git_error + repository" where
  "disk_missing = no_disk(path_one := Inr repo_ab)"

definition disk_unreadable :: "string \<Rightarrow> git_error + repository" where
  "disk_unreadable = no_disk(path_one := Inr repo_ab, path_two := Inr repo_unreadable)"

text \<open>A commit with the largest committer time a \<^verbatim>\<open>time.Time\<close> holds, and a
  repository with head and marker at this commit.\<close>

definition commit_last :: commit where
  "commit_last = \<lparr>Hash = ''e5e5e5e5'', Author = dev (Unix 9223371974719179007),
                   Committer = dev (Unix 9223371974719179007),
                   Message = ''last'', ParentHashes = []\<rparr>"

definition repo_last :: repository where
  "repo_last = repo_ab\<lparr>refs := [''refs/heads/master'' \<mapsto> ''e5e5e5e5'',
                                  ''refs/tags/Updated.At'' \<mapsto> ''e5e5e5e5''],
                         objects := [commit_last]\<rparr>"

definition marker_last :: reference where
  "marker_last = \<lparr>ref_Name = ''refs/tags/Updated.At'', ref_Hash = ''e5e5e5e5''\<rparr>"

text \<open>A repository with a branch \<^verbatim>\<open>side\<close> and no tag.\<close>

definition repo_side :: repository where
  "repo_side = repo_ab\<lparr>refs := [''refs/heads/master'' \<mapsto> ''b2b2b2b2'',
                                  ''refs/heads/side'' \<mapsto> ''a1a1a1a1'']\<rparr>"

section \<open>Vocabulary of the properties\<close>


definition head_hash :: "repository \<Rightarrow> hash option" where
  "head_hash r = refs r (HEAD r)"

definition stored :: "commit list \<Rightarrow> hash \<Rightarrow> bool" where
  "stored st h = (find (\<lambda>c. Hash c = h) st \<noteq> None)"




section \<open>Facts about time and paths\<close>

text \<open>Below the largest instant, one second later is later; at the largest instant,
  \<^verbatim>\<open>Add\<close> returns the instant itself.\<close>

lemma sint_succ: "sint (x :: 64 word) < 9223372036854775807 \<Longrightarrow> sint (x + 1) = sint x + 1"
proof -
  assume a: "sint x < 9223372036854775807"
  have lo: "- (2 ^ 63) \<le> sint x"
    using sint_ge[of x] by simp
  have "sint (x + 1) = signed_take_bit 63 (sint x + 1)"
    by (simp add: sint_word_ariths)
  also have "\<dots> = sint x + 1"
    using a lo by (intro signed_take_bit_int_eq_self) simp_all
  finally show ?thesis .
qed

lemma Before_Add_Second:
  assumes "sint (sec t) < 9223372036854775807" and "0 \<le> nsec t" and "nsec t < 1000000000"
  shows "Before t (Add t Second)"
  using assms sint_succ[of "sec t"] by (simp add: Before_def Add_def Second_def Let_def)

lemma Add_Second_last:
  assumes "sec t = 9223372036854775807" and "0 \<le> nsec t" and "nsec t < 1000000000"
  shows "Add t Second = t"
  using assms by (simp add: Add_def Second_def Let_def)

lemma Before_irrefl: "\<not> Before t t"
  by (simp add: Before_def)

text \<open>The reference \<^verbatim>\<open>r.Tag\<close> looks up for the name \<open>TagName\<close> is the one
  \<^verbatim>\<open>r.CreateTag\<close> creates for it.\<close>

lemma Join_marker: "Join [''refs'', ''tags'', ''Updated.At''] = ''refs/tags/Updated.At''"
  by (simp add: Join_def Clean_def clean_step_def)

lemma Join_TagName: "Join [''refs'', ''tags'', TagName] = NewTagReferenceName TagName"
  by (simp add: Join_marker TagName_def NewTagReferenceName_def)

section \<open>Unfolding rules\<close>

lemmas store_defs = Storer_Reference_def Storer_SetReference_def Tag_def CreateTag_def Head_def
  NewTagReferenceName_def NewHashReference_def TagName_def Join_marker

lemmas fixture_defs = env0_def dev_def commit_a_def commit_b_def commit_c_def commit_skew_def
  no_fault_def repo_ab_def repo_tagged_def repo_unreadable_def repo_bare_def repo_skew_def
  head_b_def world_of_def no_disk_def marker_a_def repo_shallow_b_def
  env_no_home_def env_no_match_def env_bracket_def net0_def disk_two_def disk_one_def disk_home_def disk_missing_def
  disk_unreadable_def path_one_def path_two_def commit_last_def repo_last_def marker_last_def
  repo_side_def

lemmas time_defs = Unix_def Add_def Before_def Second_def

lemmas run_defs = GetGitLog_def Log_def CommitObject_def commitBrief_def Signature_String_def Let_def

lemmas main_defs = main_def restartEmacs_def aborted_def tick_def panicked_def
  UpdateEmacsStraightRepo_def CreateOrModifyGitTag_def Remote_def PullGitChanges_def
  Worktree_Pull_def isFastForward_def

section \<open>The traversal yields exactly the ancestors\<close>

lemma reach_trans: "reach st b c \<Longrightarrow> reach st a b \<Longrightarrow> reach st a c"
  by (induction rule: reach.induct) (auto intro: reach.intros)

text \<open>An induction rule over the results of \<open>walk\<close>, one case per step of the
  iterator.\<close>

lemma walk_result_induct [consumes 1, case_names Empty Pop Missing Seen Visit]:
  assumes w: "walk st seen stack = (ys, e)"
    and Empty: "\<And>st seen. P st seen [] [] None"
    and Pop: "\<And>st seen stack ys e. walk st seen stack = (ys, e) \<Longrightarrow> P st seen stack ys e \<Longrightarrow>
            P st seen ([] # stack) ys e"
    and Missing: "\<And>st seen h hs stack. find (\<lambda>c. Hash c = h) st = None \<Longrightarrow>
            P st seen ((h # hs) # stack) [] (Some ErrObjectNotFound)"
    and Seen: "\<And>st seen h hs stack d ys e. find (\<lambda>c. Hash c = h) st = Some d \<Longrightarrow> h \<in> seen \<Longrightarrow>
            walk st seen (hs # stack) = (ys, e) \<Longrightarrow>
            P st seen (hs # stack) ys e \<Longrightarrow> P st seen ((h # hs) # stack) ys e"
    and Visit: "\<And>st seen h hs stack d ys e. find (\<lambda>c. Hash c = h) st = Some d \<Longrightarrow> Hash d = h \<Longrightarrow>
            h \<notin> seen \<Longrightarrow>
            walk st (insert h seen) (if ParentHashes d = [] then hs # stack
               else filter (\<lambda>p. p \<notin> insert h seen) (ParentHashes d) # hs # stack) = (ys, e) \<Longrightarrow>
            P st (insert h seen) (if ParentHashes d = [] then hs # stack
               else filter (\<lambda>p. p \<notin> insert h seen) (ParentHashes d) # hs # stack) ys e \<Longrightarrow>
            P st seen ((h # hs) # stack) (d # ys) e"
  shows "P st seen stack ys e"
  using w
proof (induction st seen stack arbitrary: ys e rule: walk.induct)
  case (1 st seen)
  then show ?case using Empty by simp
next
  case (2 st seen stack)
  from "2.prems" have w: "walk st seen stack = (ys, e)" by simp
  show ?case by (rule Pop[OF w "2.IH"[OF w]])
next
  case (3 st seen h hs stack)
  show ?case
  proof (cases "find (\<lambda>c. Hash c = h) st")
    case None
    with "3.prems" Missing show ?thesis by simp
  next
    case (Some d)
    then have hd: "Hash d = h" by (auto simp: find_Some_iff)
    show ?thesis
    proof (cases "h \<in> seen")
      case True
      with Some "3.prems" have w: "walk st seen (hs # stack) = (ys, e)" by simp
      show ?thesis by (rule Seen[OF Some True w "3.IH"(1)[OF Some True w]])
    next
      case False
      obtain zs e' where w: "walk st (insert h seen)
                    (if ParentHashes d = [] then hs # stack
                     else filter (\<lambda>p. p \<notin> insert h seen) (ParentHashes d) # hs # stack) = (zs, e')"
        by (cases "walk st (insert h seen)
                    (if ParentHashes d = [] then hs # stack
                     else filter (\<lambda>p. p \<notin> insert h seen) (ParentHashes d) # hs # stack)") 
      with Some False "3.prems" have ys: "ys = d # zs" "e = e'" by simp_all
      show ?thesis
        unfolding ys by (rule Visit[OF Some hd False w "3.IH"(2)[OF Some False w]])
    qed
  qed
qed

lemma walk_stored:
  "walk st seen stack = (ys, e) \<Longrightarrow> \<forall>c\<in>set ys. find (\<lambda>c'. Hash c' = Hash c) st = Some c \<and> Hash c \<notin> seen"
  by (induction rule: walk_result_induct) auto

lemma walk_distinct:
  "walk st seen stack = (ys, e) \<Longrightarrow> distinct (map Hash ys)"
proof (induction rule: walk_result_induct)
  case (Visit st seen h hs stack d ys e)
  from walk_stored[OF Visit(4)] have "h \<notin> Hash ` set ys" by auto
  with Visit show ?case by simp
qed auto

lemma walk_pending_aux:
  "walk st seen stack = (ys, e) \<Longrightarrow> e = None \<longrightarrow> \<Union>(set ` set stack) \<subseteq> seen \<union> Hash ` set ys"
proof (induction rule: walk_result_induct)
  case (Visit st seen h hs stack d ys e)
  then show ?case by (auto split: if_splits)
qed auto

lemma walk_pending:
  "walk st seen stack = (ys, None) \<Longrightarrow> \<Union>(set ` set stack) \<subseteq> seen \<union> Hash ` set ys"
  using walk_pending_aux by blast

lemma walk_closed_aux:
  "walk st seen stack = (ys, e) \<Longrightarrow>
     e = None \<longrightarrow> (\<forall>c\<in>set ys. set (ParentHashes c) \<subseteq> seen \<union> Hash ` set ys)"
proof (induction rule: walk_result_induct)
  case (Visit st seen h hs stack d ys e)
  show ?case
  proof
    assume e: "e = None"
    with walk_pending Visit(4)
    have "\<Union>(set ` set (if ParentHashes d = [] then hs # stack
               else filter (\<lambda>p. p \<notin> insert h seen) (ParentHashes d) # hs # stack))
            \<subseteq> insert h seen \<union> Hash ` set ys"
      by blast
    then have "set (ParentHashes d) \<subseteq> insert h seen \<union> Hash ` set ys"
      by (auto split: if_splits)
    with Visit e show "\<forall>c\<in>set (d # ys). set (ParentHashes c) \<subseteq> seen \<union> Hash ` set (d # ys)"
      by auto
  qed
qed auto

lemma walk_closed:
  "walk st seen stack = (ys, None) \<Longrightarrow> \<forall>c\<in>set ys. set (ParentHashes c) \<subseteq> seen \<union> Hash ` set ys"
  using walk_closed_aux by blast

lemma walk_sound:
  "walk st seen stack = (ys, e) \<Longrightarrow> \<forall>c\<in>set ys. \<exists>s\<in>\<Union>(set ` set stack). reach st s (Hash c)"
proof (induction rule: walk_result_induct)
  case (Visit st seen h hs stack d ys e)
  have "\<exists>s\<in>\<Union>(set ` set ((h # hs) # stack)). reach st s (Hash c)" if c: "c \<in> set ys" for c
  proof -
    from Visit(5) c obtain s where s: "s \<in> \<Union>(set ` set (if ParentHashes d = [] then hs # stack
               else filter (\<lambda>p. p \<notin> insert h seen) (ParentHashes d) # hs # stack))" "reach st s (Hash c)"
      by blast
    show ?thesis
    proof (cases "s \<in> set (ParentHashes d)")
      case True
      have "reach st h s"
        using reach_step[OF reach_refl Visit(1) True] .
      with s(2) have "reach st h (Hash c)" by (rule reach_trans)
      then show ?thesis by auto
    next
      case False
      with s(1) have "s \<in> \<Union>(set ` set (hs # stack))" by (auto split: if_splits)
      with s(2) show ?thesis by auto
    qed
  qed
  moreover have "reach st h (Hash d)" using Visit(2) by (simp add: reach_refl)
  ultimately show ?case by auto
qed auto

lemma walk_complete:
  assumes "walk st {} [[h]] = (ys, None)"
  shows "set ys = {c. \<exists>x. reach st h x \<and> find (\<lambda>c'. Hash c' = x) st = Some c}"
    and "Hash ` set ys = {x. reach st h x}"
proof -
  have stored: "\<forall>c\<in>set ys. find (\<lambda>c'. Hash c' = Hash c) st = Some c"
    using walk_stored[OF assms] by simp
  have sound: "\<forall>c\<in>set ys. reach st h (Hash c)"
    using walk_sound[OF assms] by simp
  have start: "h \<in> Hash ` set ys"
    using walk_pending[OF assms] by simp
  have closed: "\<forall>c\<in>set ys. set (ParentHashes c) \<subseteq> Hash ` set ys"
    using walk_closed[OF assms] by simp
  have all: "x \<in> Hash ` set ys" if "reach st h x" for x
    using that
  proof (induction rule: reach.induct)
    case reach_refl
    show ?case by (rule start)
  next
    case (reach_step b c p)
    from reach_step.IH obtain c' where c': "c' \<in> set ys" "Hash c' = b" by auto
    with stored reach_step.hyps(2) have "c' = c" by auto
    with c' closed reach_step.hyps(3) show ?case by auto
  qed
  show "Hash ` set ys = {x. reach st h x}"
    using all sound by auto
  show "set ys = {c. \<exists>x. reach st h x \<and> find (\<lambda>c'. Hash c' = x) st = Some c}"
  proof (intro equalityI subsetI)
    fix c assume "c \<in> set ys"
    with stored sound show "c \<in> {c. \<exists>x. reach st h x \<and> find (\<lambda>c'. Hash c' = x) st = Some c}"
      by auto
  next
    fix c assume "c \<in> {c. \<exists>x. reach st h x \<and> find (\<lambda>c'. Hash c' = x) st = Some c}"
    then obtain x where x: "reach st h x" "find (\<lambda>c'. Hash c' = x) st = Some c" by auto
    from all[OF x(1)] obtain c' where c': "c' \<in> set ys" "Hash c' = x" by auto
    with stored x(2) show "c \<in> set ys" by auto
  qed
qed

section \<open>The pull operation\<close>

text \<open>
  Claim C1, as the code has it. On a repository whose worktree cannot be obtained
  (\<^verbatim>\<open>r.Worktree()\<close> fails), \<^verbatim>\<open>PullGitChanges\<close> returns \<open>changed = false\<close> together
  with that error and the repository is left as it was. On every other repository it
  never returns an error, leaves the repository as the pull left it, and returns
  \<open>changed = false\<close> exactly when the pull reports already-up-to-date; every other
  outcome of the pull, genuine errors included, gives \<open>changed = true\<close>.
\<close>

theorem PullGitChanges_outcome:
  "(bare r \<longrightarrow> PullGitChanges r step = ((False, Some ErrIsBareRepository), r))
   \<and> (\<not> bare r \<longrightarrow>
        snd (fst (PullGitChanges r step)) = None
        \<and> snd (PullGitChanges r step) = snd (Worktree_Pull r step)
        \<and> (fst (fst (PullGitChanges r step)) = False
             \<longleftrightarrow> fst (Worktree_Pull r step) = Some NoErrAlreadyUpToDate))"
  by (auto simp: PullGitChanges_def split: prod.splits)

theorem PullGitChanges_outcome_witness:
  "bare repo_bare
   \<and> PullGitChanges repo_bare UpToDate = ((False, Some ErrIsBareRepository), repo_bare)
   \<and> \<not> bare repo_tagged
   \<and> fst (PullGitChanges repo_tagged UpToDate) = (False, None)
   \<and> fst (PullGitChanges repo_tagged (Fails (ErrIO ''network unreachable''))) = (True, None)"
proof -
  have b: "bare repo_bare"
    by (simp add: fixture_defs)
  have nb: "\<not> bare repo_tagged"
    by (simp add: fixture_defs)
  have up: "fst (Worktree_Pull repo_tagged UpToDate) = Some NoErrAlreadyUpToDate"
    by (simp add: Worktree_Pull_def)
  have err: "fst (Worktree_Pull repo_tagged (Fails (ErrIO ''network unreachable''))) \<noteq> Some NoErrAlreadyUpToDate"
    by (simp add: Worktree_Pull_def)
  from PullGitChanges_outcome [of repo_bare UpToDate] b
  have 1: "PullGitChanges repo_bare UpToDate = ((False, Some ErrIsBareRepository), repo_bare)"
    by blast
  from PullGitChanges_outcome [of repo_tagged UpToDate] nb up
  have 2: "fst (PullGitChanges repo_tagged UpToDate) = (False, None)"
    by (simp add: prod_eq_iff)
  from PullGitChanges_outcome [of repo_tagged "Fails (ErrIO ''network unreachable'')"] nb err
  have 3: "fst (PullGitChanges repo_tagged (Fails (ErrIO ''network unreachable''))) = (True, None)"
    by (simp add: prod_eq_iff)
  from b nb 1 2 3 show ?thesis by blast
qed

text \<open>
  The claim as stated fails on a repository without a worktree: while the pull would
  meet a network failure, not already-up-to-date, the result is \<open>changed = false\<close>,
  and an error is returned.
\<close>

theorem PullGitChanges_bare_counterexample:
  "fst (fst (PullGitChanges repo_bare (Fails (ErrIO ''network unreachable'')))) = False
   \<and> snd (fst (PullGitChanges repo_bare (Fails (ErrIO ''network unreachable'')))) = Some ErrIsBareRepository
   \<and> fst (Worktree_Pull repo_bare (Fails (ErrIO ''network unreachable''))) \<noteq> Some NoErrAlreadyUpToDate"
  by (simp add: PullGitChanges_def Worktree_Pull_def fixture_defs)

section \<open>The marker manager's results\<close>

text \<open>The three ways the marker operation can meet a failure of the reference store: a
  failing write and a failing creation are returned as errors; a failing lookup (other
  than tag-not-found) is not.\<close>

lemma CreateOrModifyGitTag_write_error:
  "Tag r t = Inr tag \<Longrightarrow> ref_write_fault r (ref_Name tag) = Some e \<Longrightarrow>
     CreateOrModifyGitTag r t rf = (Inl e, r)"
  by (simp add: CreateOrModifyGitTag_def Storer_SetReference_def NewHashReference_def)

lemma CreateOrModifyGitTag_create_error:
  "Tag r t = Inl ErrTagNotFound \<Longrightarrow> CreateTag r TagName (ref_Hash rf) = (Inl e, r') \<Longrightarrow>
     CreateOrModifyGitTag r t rf = (Inl e, r')"
  by (simp add: CreateOrModifyGitTag_def)

lemma CreateOrModifyGitTag_lookup_error:
  "Tag r t = Inl e \<Longrightarrow> e \<noteq> ErrTagNotFound \<Longrightarrow> CreateOrModifyGitTag r t rf = (Inr None, r)"
  by (simp add: CreateOrModifyGitTag_def)

text \<open>
  Claim C2 at a failing input. The marker's reference exists but cannot be read (the
  lookup fails with an I/O error, not with tag-not-found). \<^verbatim>\<open>CreateOrModifyGitTag\<close>
  then returns a \<^verbatim>\<open>nil\<close> reference and a \<^verbatim>\<open>nil\<close> error and leaves the reference
  store as it was; the worker goes on, pulls, and ends in the panic of
  \<^verbatim>\<open>GetGitLog\<close> on the \<^verbatim>\<open>nil\<close> reference, not in \<^verbatim>\<open>log.Fatal\<close>.
\<close>

theorem CreateOrModifyGitTag_lookup_failure:
  "CreateOrModifyGitTag repo_unreadable TagName head_b = (Inr None, repo_unreadable)
   \<and> fst (UpdateEmacsStraightRepo env0 UpToDate ''/r/one''
            (world_of (no_disk(''/r/one'' := Inr repo_unreadable)))) = Panic"
  by (simp add: UpdateEmacsStraightRepo_def CreateOrModifyGitTag_def store_defs
      fixture_defs Remote_def PullGitChanges_def Worktree_Pull_def GetGitLog_def)

text \<open>
  Claim C3, as the code has it. The reference looked up for the name \<open>t\<close> is
  \<^verbatim>\<open>path.Join("refs", "tags", t)\<close>.
  \<^item> When it exists (and can be read and written), it is repointed to the hash of the
    target \<open>rf\<close>, whatever it pointed to before.
  \<^item> When it does not exist and \<^verbatim>\<open>refs/tags/Updated.At\<close>, the name built from the
    constant \<open>TagName\<close>, does not exist either (and can be read and written), that
    reference is created at the hash of the target, whatever \<open>t\<close> is.
  \<^item> When it does not exist and \<^verbatim>\<open>refs/tags/Updated.At\<close> exists, nothing is created:
    the error is \<open>ErrTagExists\<close> and the reference store is left as it was.
\<close>

theorem CreateOrModifyGitTag_moves_or_creates:
  "(ref_read_fault r (Join [''refs'', ''tags'', t]) = None
      \<and> refs r (Join [''refs'', ''tags'', t]) = Some h
      \<and> ref_write_fault r (Join [''refs'', ''tags'', t]) = None \<longrightarrow>
      CreateOrModifyGitTag r t rf =
        (Inr (Some \<lparr>ref_Name = Join [''refs'', ''tags'', t], ref_Hash = ref_Hash rf\<rparr>),
         r\<lparr>refs := (refs r)(Join [''refs'', ''tags'', t] \<mapsto> ref_Hash rf)\<rparr>))
   \<and> (ref_read_fault r (Join [''refs'', ''tags'', t]) = None
      \<and> refs r (Join [''refs'', ''tags'', t]) = None
      \<and> ref_read_fault r ''refs/tags/Updated.At'' = None
      \<and> refs r ''refs/tags/Updated.At'' = None
      \<and> ref_write_fault r ''refs/tags/Updated.At'' = None \<longrightarrow>
      CreateOrModifyGitTag r t rf =
        (Inr (Some \<lparr>ref_Name = ''refs/tags/Updated.At'', ref_Hash = ref_Hash rf\<rparr>),
         r\<lparr>refs := (refs r)(''refs/tags/Updated.At'' \<mapsto> ref_Hash rf)\<rparr>))
   \<and> (ref_read_fault r (Join [''refs'', ''tags'', t]) = None
      \<and> refs r (Join [''refs'', ''tags'', t]) = None
      \<and> ref_read_fault r ''refs/tags/Updated.At'' = None
      \<and> refs r ''refs/tags/Updated.At'' = Some h \<longrightarrow>
      CreateOrModifyGitTag r t rf = (Inl ErrTagExists, r))"
  by (simp add: CreateOrModifyGitTag_def store_defs Let_def)

theorem CreateOrModifyGitTag_moves_or_creates_witness:
  "Join [''refs'', ''tags'', TagName] = ''refs/tags/Updated.At''
   \<and> refs repo_tagged ''refs/tags/Updated.At'' = Some ''a1a1a1a1''
   \<and> CreateOrModifyGitTag repo_tagged TagName head_b
       = (Inr (Some \<lparr>ref_Name = ''refs/tags/Updated.At'', ref_Hash = ''b2b2b2b2''\<rparr>),
          repo_tagged\<lparr>refs := (refs repo_tagged)(''refs/tags/Updated.At'' \<mapsto> ''b2b2b2b2'')\<rparr>)
   \<and> Join [''refs'', ''tags'', ''Other.Name''] = ''refs/tags/Other.Name''
   \<and> refs repo_ab ''refs/tags/Other.Name'' = None
   \<and> refs repo_ab ''refs/tags/Updated.At'' = None
   \<and> CreateOrModifyGitTag repo_ab ''Other.Name'' head_b
       = (Inr (Some \<lparr>ref_Name = ''refs/tags/Updated.At'', ref_Hash = ''b2b2b2b2''\<rparr>),
          repo_ab\<lparr>refs := (refs repo_ab)(''refs/tags/Updated.At'' \<mapsto> ''b2b2b2b2'')\<rparr>)
   \<and> refs repo_tagged ''refs/tags/Other.Name'' = None
   \<and> CreateOrModifyGitTag repo_tagged ''Other.Name'' head_b = (Inl ErrTagExists, repo_tagged)"
proof -
  have j1: "Join [''refs'', ''tags'', TagName] = ''refs/tags/Updated.At''"
    by (simp add: TagName_def Join_marker)
  have j2: "Join [''refs'', ''tags'', ''Other.Name''] = ''refs/tags/Other.Name''"
    by (simp add: Join_def Clean_def clean_step_def)
  have s1: "ref_read_fault repo_tagged ''refs/tags/Updated.At'' = None"
    "refs repo_tagged ''refs/tags/Updated.At'' = Some ''a1a1a1a1''"
    "ref_write_fault repo_tagged ''refs/tags/Updated.At'' = None"
    "ref_read_fault repo_tagged ''refs/tags/Other.Name'' = None"
    "refs repo_tagged ''refs/tags/Other.Name'' = None"
    by (simp_all add: fixture_defs)
  have s2: "ref_read_fault repo_ab ''refs/tags/Other.Name'' = None"
    "refs repo_ab ''refs/tags/Other.Name'' = None"
    "ref_read_fault repo_ab ''refs/tags/Updated.At'' = None"
    "refs repo_ab ''refs/tags/Updated.At'' = None"
    "ref_write_fault repo_ab ''refs/tags/Updated.At'' = None"
    by (simp_all add: fixture_defs)
  have h: "ref_Hash head_b = ''b2b2b2b2''"
    by (simp add: head_b_def)
  from CreateOrModifyGitTag_moves_or_creates [of repo_tagged TagName "''a1a1a1a1''" head_b] s1
  have 1: "CreateOrModifyGitTag repo_tagged TagName head_b
       = (Inr (Some \<lparr>ref_Name = ''refs/tags/Updated.At'', ref_Hash = ''b2b2b2b2''\<rparr>),
          repo_tagged\<lparr>refs := (refs repo_tagged)(''refs/tags/Updated.At'' \<mapsto> ''b2b2b2b2'')\<rparr>)"
    by (simp add: j1 h)
  from CreateOrModifyGitTag_moves_or_creates [of repo_ab "''Other.Name''" "''a1a1a1a1''" head_b] s2
  have 2: "CreateOrModifyGitTag repo_ab ''Other.Name'' head_b
       = (Inr (Some \<lparr>ref_Name = ''refs/tags/Updated.At'', ref_Hash = ''b2b2b2b2''\<rparr>),
          repo_ab\<lparr>refs := (refs repo_ab)(''refs/tags/Updated.At'' \<mapsto> ''b2b2b2b2'')\<rparr>)"
    by (simp add: j2 h)
  from CreateOrModifyGitTag_moves_or_creates [of repo_tagged "''Other.Name''" "''a1a1a1a1''" head_b] s1
  have 3: "CreateOrModifyGitTag repo_tagged ''Other.Name'' head_b = (Inl ErrTagExists, repo_tagged)"
    by (simp add: j2)
  from j1 j2 s1(2,5) s2(2,4) 1 2 3 show ?thesis
    by simp
qed

text \<open>
  The claim as stated fails in two ways. In a repository that holds the marker
  \<^verbatim>\<open>refs/tags/Updated.At\<close> and no tag \<^verbatim>\<open>Other.Name\<close>, the operation called with the
  name \<^verbatim>\<open>Other.Name\<close> finds no tag of this name and creates nothing: it fails with
  \<open>ErrTagExists\<close> and every reference is as before. And the reference repointed for a
  name is the cleaned path: for the name \<^verbatim>\<open>../heads/side\<close> it is the branch
  \<^verbatim>\<open>refs/heads/side\<close>, while no reference \<^verbatim>\<open>refs/tags/../heads/side\<close> exists
  before or after.
\<close>

theorem CreateOrModifyGitTag_exists_counterexample:
  "Tag repo_tagged ''Other.Name'' = Inl ErrTagNotFound
   \<and> CreateOrModifyGitTag repo_tagged ''Other.Name'' head_b = (Inl ErrTagExists, repo_tagged)
   \<and> refs repo_tagged ''refs/tags/Updated.At'' = Some ''a1a1a1a1''
   \<and> ref_Hash head_b = ''b2b2b2b2''
   \<and> refs repo_side (NewTagReferenceName ''../heads/side'') = None
   \<and> refs repo_side ''refs/heads/side'' = Some ''a1a1a1a1''
   \<and> fst (CreateOrModifyGitTag repo_side ''../heads/side'' head_b)
       = Inr (Some \<lparr>ref_Name = ''refs/heads/side'', ref_Hash = ''b2b2b2b2''\<rparr>)
   \<and> refs (snd (CreateOrModifyGitTag repo_side ''../heads/side'' head_b)) ''refs/heads/side''
       = Some ''b2b2b2b2''
   \<and> refs (snd (CreateOrModifyGitTag repo_side ''../heads/side'' head_b))
        (NewTagReferenceName ''../heads/side'') = None"
proof -
  have j2: "Join [''refs'', ''tags'', ''Other.Name''] = ''refs/tags/Other.Name''"
    by (simp add: Join_def Clean_def clean_step_def)
  have j3: "Join [''refs'', ''tags'', ''../heads/side''] = ''refs/heads/side''"
    by (simp add: Join_def Clean_def clean_step_def)
  show ?thesis
    by (simp add: CreateOrModifyGitTag_def store_defs j2 j3 fixture_defs)
qed

section \<open>What the enumeration selects\<close>

lemma ForEach_ok:
  "ForEach env cs e n buf = (n', txt, None) \<Longrightarrow>
     e = None \<and> n' = n + length cs \<and> txt = buf @ concat (map (\<lambda>d. fst (commitBrief env d)) cs)"
proof (induction cs arbitrary: n buf)
  case Nil
  then show ?case by simp
next
  case (Cons c cs)
  obtain s err where cb: "commitBrief env c = (s, err)" by (cases "commitBrief env c")
  show ?case
  proof (cases err)
    case None
    with Cons.prems cb have "ForEach env cs e (Suc n) (buf @ s) = (n', txt, None)" by simp
    from Cons.IH[OF this] cb show ?thesis by simp
  next
    case (Some x)
    with Cons.prems cb show ?thesis by simp
  qed
qed

lemma CommitObject_Inr: "CommitObject st h = Inr c \<longleftrightarrow> find (\<lambda>c. Hash c = h) st = Some c"
  by (simp add: CommitObject_def split: option.splits)

lemma CommitObject_Hash: "CommitObject st h = Inr c \<Longrightarrow> Hash c = h"
  by (auto simp: CommitObject_Inr find_Some_iff)
text \<open>
  Claim C4, as the code has it. Whenever \<^verbatim>\<open>GetGitLog\<close> returns without error, the
  marker resolves to a commit \<open>c\<close>, and the commits rendered are, each once, exactly
  the stored commits reachable from the head whose committer time is not before
  \<^verbatim>\<open>c.Committer.When.Add(time.Second)\<close>, in the sense of \<^verbatim>\<open>Time.Before\<close>; the
  counter grows by one for each of them, and the text is their renderings in the order
  of the walk. The commit \<open>c\<close> is not among them when its committer time is below
  the largest instant (and its nanoseconds are in range); at the largest instant
  \<^verbatim>\<open>Add\<close> adds nothing, and \<open>c\<close> is among them whenever the head reaches it.
\<close>

theorem GetGitLog_selects:
  assumes "GetGitLog env r (Some tag) n = Some (txt, None, n')"
  shows "\<exists>c head sel.
           CommitObject (objects r) (ref_Hash tag) = Inr c
         \<and> Head r = Inr head
         \<and> distinct sel
         \<and> set sel = {d. (\<exists>x. reach (objects r) (ref_Hash head) x \<and> CommitObject (objects r) x = Inr d)
                         \<and> \<not> Before (When (Committer d)) (Add (When (Committer c)) Second)}
         \<and> n' = n + length sel
         \<and> n' = n + card {d. (\<exists>x. reach (objects r) (ref_Hash head) x \<and> CommitObject (objects r) x = Inr d)
                         \<and> \<not> Before (When (Committer d)) (Add (When (Committer c)) Second)}
         \<and> txt = concat (map (\<lambda>d. fst (commitBrief env d)) sel)
         \<and> (sint (sec (When (Committer c))) < 9223372036854775807
              \<and> 0 \<le> nsec (When (Committer c)) \<and> nsec (When (Committer c)) < 1000000000
              \<longrightarrow> c \<notin> set sel)
         \<and> (sec (When (Committer c)) = 9223372036854775807
              \<and> 0 \<le> nsec (When (Committer c)) \<and> nsec (When (Committer c)) < 1000000000
              \<and> reach (objects r) (ref_Hash head) (ref_Hash tag)
              \<longrightarrow> c \<in> set sel)"
proof -
  from assms obtain c where c: "CommitObject (objects r) (ref_Hash tag) = Inr c"
    by (auto simp: GetGitLog_def split: sum.splits)
  let ?t = "Add (When (Committer c)) Second"
  from assms c obtain cs e where lg: "Log r ?t = Inr (cs, e)"
    by (auto simp: GetGitLog_def split: sum.splits)
  from assms c lg have fe: "ForEach env cs e n '''' = (n', txt, None)"
    by (auto simp: GetGitLog_def split: prod.splits)
  from lg obtain head where head: "Head r = Inr head"
    by (auto simp: Log_def split: sum.splits)
  from lg head obtain c0 where c0: "CommitObject (objects r) (ref_Hash head) = Inr c0"
    by (auto simp: Log_def split: sum.splits)
  have h0: "Hash c0 = ref_Hash head" using c0 by (rule CommitObject_Hash)
  obtain ys e0 where w: "walk (objects r) {} [[ref_Hash head]] = (ys, e0)"
    by (cases "walk (objects r) {} [[ref_Hash head]]")
  from lg head c0 h0 w have cs: "cs = filter (\<lambda>d. \<not> Before (When (Committer d)) ?t) ys" and e: "e = e0"
    by (auto simp: Log_def)
  from ForEach_ok[OF fe] have e_none: "e = None" and n': "n' = n + length cs"
    and tx: "txt = concat (map (\<lambda>d. fst (commitBrief env d)) cs)"
    by simp_all
  from w e e_none have w': "walk (objects r) {} [[ref_Hash head]] = (ys, None)" by simp
  have ys: "set ys = {d. \<exists>x. reach (objects r) (ref_Hash head) x \<and> find (\<lambda>c'. Hash c' = x) (objects r) = Some d}"
    by (rule walk_complete(1)[OF w'])
  have "distinct (map Hash ys)" using w' by (rule walk_distinct)
  then have dys: "distinct ys" by (simp add: distinct_map)
  then have dcs: "distinct cs" unfolding cs by simp
  have scs: "set cs = {d. (\<exists>x. reach (objects r) (ref_Hash head) x \<and> CommitObject (objects r) x = Inr d)
                         \<and> \<not> Before (When (Committer d)) ?t}"
    unfolding cs using ys by (auto simp: CommitObject_Inr)
  have card: "length cs = card {d. (\<exists>x. reach (objects r) (ref_Hash head) x \<and> CommitObject (objects r) x = Inr d)
                         \<and> \<not> Before (When (Committer d)) ?t}"
    using distinct_card[OF dcs] scs by simp
  have notin: "c \<notin> set cs"
    if "sint (sec (When (Committer c))) < 9223372036854775807
        \<and> 0 \<le> nsec (When (Committer c)) \<and> nsec (When (Committer c)) < 1000000000"
    unfolding cs using that Before_Add_Second[of "When (Committer c)"] by simp
  have isin: "c \<in> set cs"
    if "sec (When (Committer c)) = 9223372036854775807
        \<and> 0 \<le> nsec (When (Committer c)) \<and> nsec (When (Committer c)) < 1000000000
        \<and> reach (objects r) (ref_Hash head) (ref_Hash tag)"
  proof -
    from that have "?t = When (Committer c)"
      by (simp add: Add_Second_last)
    then have "\<not> Before (When (Committer c)) ?t"
      by (simp add: Before_irrefl)
    with that c show ?thesis
      unfolding scs by blast
  qed
  show ?thesis
  proof (intro exI conjI)
    show "CommitObject (objects r) (ref_Hash tag) = Inr c" by (rule c)
    show "Head r = Inr head" by (rule head)
    show "distinct cs" by (rule dcs)
    show "set cs = {d. (\<exists>x. reach (objects r) (ref_Hash head) x \<and> CommitObject (objects r) x = Inr d)
                         \<and> \<not> Before (When (Committer d)) (Add (When (Committer c)) Second)}" by (rule scs)
    show "n' = n + length cs" by (rule n')
    show "n' = n + card {d. (\<exists>x. reach (objects r) (ref_Hash head) x \<and> CommitObject (objects r) x = Inr d)
                         \<and> \<not> Before (When (Committer d)) (Add (When (Committer c)) Second)}"
      using n' card by simp
    show "txt = concat (map (\<lambda>d. fst (commitBrief env d)) cs)" by (rule tx)
    show "sint (sec (When (Committer c))) < 9223372036854775807
              \<and> 0 \<le> nsec (When (Committer c)) \<and> nsec (When (Committer c)) < 1000000000
              \<longrightarrow> c \<notin> set cs"
      using notin by blast
    show "sec (When (Committer c)) = 9223372036854775807
              \<and> 0 \<le> nsec (When (Committer c)) \<and> nsec (When (Committer c)) < 1000000000
              \<and> reach (objects r) (ref_Hash head) (ref_Hash tag)
              \<longrightarrow> c \<in> set cs"
      using isin by blast
  qed
qed

text \<open>
  Two instances. With the marker at \<open>commit_a\<close> and the head at \<open>commit_b\<close>, one
  commit is selected, and it is not the marker's commit. With head and marker at
  \<open>commit_last\<close>, whose committer time is the largest instant, the marker's commit
  is selected.
\<close>

theorem GetGitLog_selects_witness:
  "GetGitLog env0 repo_tagged (Some marker_a) 0
     = Some ([CHR 0x09] @ ''2024-05-01 b2b2b2 dev <dev@example.org>''
               @ [CHR 0x0A, CHR 0x09, CHR 0x09, CHR ''x'', CHR 0x0A, CHR 0x09, CHR 0x09,
                  CHR ''y'', CHR 0x0A, CHR 0x09, CHR 0x09, CHR 0x0A],
             None, 1)
   \<and> card {d. (\<exists>x. reach (objects repo_tagged) ''b2b2b2b2'' x \<and> CommitObject (objects repo_tagged) x = Inr d)
              \<and> \<not> Before (When (Committer d)) (Add (When (Committer commit_a)) Second)} = 1
   \<and> sint (sec (When (Committer commit_a))) < 9223372036854775807
   \<and> \<not> (\<exists>x. reach (objects repo_tagged) ''b2b2b2b2'' x \<and> CommitObject (objects repo_tagged) x = Inr commit_a
           \<and> \<not> Before (When (Committer commit_a)) (Add (When (Committer commit_a)) Second))
   \<and> GetGitLog env0 repo_last (Some marker_last) 0
     = Some ([CHR 0x09] @ ''2024-05-01 e5e5e5 dev <dev@example.org>''
               @ [CHR 0x0A, CHR 0x09, CHR 0x09] @ ''last'' @ [CHR 0x0A], None, 1)
   \<and> sec (When (Committer commit_last)) = 9223372036854775807
   \<and> reach (objects repo_last) ''e5e5e5e5'' ''e5e5e5e5''
   \<and> \<not> Before (When (Committer commit_last)) (Add (When (Committer commit_last)) Second)"
proof -
  let ?S = "\<lambda>r h c. {d. (\<exists>x. reach (objects r) h x \<and> CommitObject (objects r) x = Inr d)
              \<and> \<not> Before (When (Committer d)) (Add (When (Committer c)) Second)}"
  have run: "GetGitLog env0 repo_tagged (Some marker_a) 0
     = Some ([CHR 0x09] @ ''2024-05-01 b2b2b2 dev <dev@example.org>''
               @ [CHR 0x0A, CHR 0x09, CHR 0x09, CHR ''x'', CHR 0x0A, CHR 0x09, CHR 0x09,
                  CHR ''y'', CHR 0x0A, CHR 0x09, CHR 0x09, CHR 0x0A],
             None, 1)"
    by (simp add: run_defs store_defs fixture_defs time_defs)
  have c: "CommitObject (objects repo_tagged) (ref_Hash marker_a) = Inr commit_a"
    by (simp add: CommitObject_def fixture_defs)
  have h: "Head repo_tagged = Inr head_b"
    by (simp add: store_defs fixture_defs)
  have ta: "sint (sec (When (Committer commit_a))) < 9223372036854775807"
    "0 \<le> nsec (When (Committer commit_a))" "nsec (When (Committer commit_a)) < 1000000000"
    by (simp_all add: fixture_defs time_defs)
  from GetGitLog_selects [OF run] c h ta obtain sel where
      sel: "set sel = ?S repo_tagged (ref_Hash head_b) commit_a"
      "1 = 0 + card (?S repo_tagged (ref_Hash head_b) commit_a)"
      "commit_a \<notin> set sel"
    by auto
  from sel(2) have 1: "card (?S repo_tagged ''b2b2b2b2'' commit_a) = 1"
    by (simp add: head_b_def)
  from sel(1,3) have 2: "\<not> (\<exists>x. reach (objects repo_tagged) ''b2b2b2b2'' x
           \<and> CommitObject (objects repo_tagged) x = Inr commit_a
           \<and> \<not> Before (When (Committer commit_a)) (Add (When (Committer commit_a)) Second))"
    by (auto simp: head_b_def)
  have run2: "GetGitLog env0 repo_last (Some marker_last) 0
     = Some ([CHR 0x09] @ ''2024-05-01 e5e5e5 dev <dev@example.org>''
               @ [CHR 0x0A, CHR 0x09, CHR 0x09] @ ''last'' @ [CHR 0x0A], None, 1)"
    by (simp add: run_defs store_defs fixture_defs time_defs)
  have c2: "CommitObject (objects repo_last) (ref_Hash marker_last) = Inr commit_last"
    by (simp add: CommitObject_def fixture_defs)
  have h2: "Head repo_last = Inr \<lparr>ref_Name = ''refs/heads/master'', ref_Hash = ''e5e5e5e5''\<rparr>"
    by (simp add: store_defs fixture_defs)
  have tl: "sec (When (Committer commit_last)) = 9223372036854775807"
    "0 \<le> nsec (When (Committer commit_last))" "nsec (When (Committer commit_last)) < 1000000000"
    by (simp_all add: fixture_defs time_defs)
  have rl: "reach (objects repo_last) ''e5e5e5e5'' ''e5e5e5e5''"
    by (rule reach.reach_refl)
  from GetGitLog_selects [OF run2] c2 h2 tl rl obtain sel2 where
      sel2: "set sel2 = ?S repo_last ''e5e5e5e5'' commit_last" "commit_last \<in> set sel2"
    by (auto simp: marker_last_def)
  from sel2 have 3: "\<not> Before (When (Committer commit_last)) (Add (When (Committer commit_last)) Second)"
    by auto
  from run 1 ta(1) 2 run2 tl(1) rl 3 show ?thesis
    by blast
qed

text \<open>
  The claim as stated fails at the end of the range of \<^verbatim>\<open>time.Time\<close>. The commit
  \<open>commit_last\<close> carries the timestamp 9223371974719179007, which \<^verbatim>\<open>time.Unix\<close>
  turns into the largest instant; \<^verbatim>\<open>Add(time.Second)\<close> returns this instant, not one
  second more, so with marker and head at this commit the enumeration selects the
  marker's commit itself and the count is 1.
\<close>

theorem GetGitLog_last_counterexample:
  "CommitObject (objects repo_last) (ref_Hash marker_last) = Inr commit_last
   \<and> Add (When (Committer commit_last)) Second = When (Committer commit_last)
   \<and> GetGitLog env0 repo_last (Some marker_last) 0
     = Some (fst (commitBrief env0 commit_last), None, 1)"
  by (simp add: run_defs store_defs fixture_defs time_defs)

section \<open>What the template renders\<close>

lemma replaceAll_char:
  "replaceAll s [a] new = concat (map (\<lambda>x. if x = a then new else [x]) s)"
  by (induction s) simp_all

lemma indented_Cons:
  assumes "\<forall>i<length m. m ! i = a \<longrightarrow> i + 2 < length m \<and> m ! (i + 1) = b \<and> m ! (i + 2) = b"
    and "x \<noteq> a"
  shows "\<forall>i<length (x # m). (x # m) ! i = a \<longrightarrow>
           i + 2 < length (x # m) \<and> (x # m) ! (i + 1) = b \<and> (x # m) ! (i + 2) = b"
proof (intro allI impI)
  fix i assume i: "i < length (x # m)" and a: "(x # m) ! i = a"
  with assms(2) obtain j where j: "i = Suc j" by (cases i) auto
  with i a assms(1) show "i + 2 < length (x # m) \<and> (x # m) ! (i + 1) = b \<and> (x # m) ! (i + 2) = b"
    by simp
qed

lemma newlines_indented:
  assumes "b \<noteq> a"
  shows "\<forall>i<length (concat (map (\<lambda>x. if x = a then [a, b, b] else [x]) s)).
           concat (map (\<lambda>x. if x = a then [a, b, b] else [x]) s) ! i = a \<longrightarrow>
             i + 2 < length (concat (map (\<lambda>x. if x = a then [a, b, b] else [x]) s))
           \<and> concat (map (\<lambda>x. if x = a then [a, b, b] else [x]) s) ! (i + 1) = b
           \<and> concat (map (\<lambda>x. if x = a then [a, b, b] else [x]) s) ! (i + 2) = b"
proof (induction s)
  case Nil
  show ?case by simp
next
  case (Cons x s)
  let ?m = "concat (map (\<lambda>x. if x = a then [a, b, b] else [x]) s)"
  show ?case
  proof (cases "x = a")
    case False
    then have eq: "concat (map (\<lambda>x. if x = a then [a, b, b] else [x]) (x # s)) = x # ?m" by simp
    show ?thesis unfolding eq by (rule indented_Cons[OF Cons.IH False])
  next
    case True
    then have eq: "concat (map (\<lambda>x. if x = a then [a, b, b] else [x]) (x # s)) = a # b # b # ?m" by simp
    have 1: "\<forall>i<length (b # ?m). (b # ?m) ! i = a \<longrightarrow>
           i + 2 < length (b # ?m) \<and> (b # ?m) ! (i + 1) = b \<and> (b # ?m) ! (i + 2) = b"
      by (rule indented_Cons[OF Cons.IH assms])
    have 2: "\<forall>i<length (b # b # ?m). (b # b # ?m) ! i = a \<longrightarrow>
           i + 2 < length (b # b # ?m) \<and> (b # b # ?m) ! (i + 1) = b \<and> (b # b # ?m) ! (i + 2) = b"
      by (rule indented_Cons[OF 1 assms])
    show ?thesis unfolding eq
    proof (intro allI impI)
      fix i assume i: "i < length (a # b # b # ?m)" and a: "(a # b # b # ?m) ! i = a"
      show "i + 2 < length (a # b # b # ?m) \<and> (a # b # b # ?m) ! (i + 1) = b \<and> (a # b # b # ?m) ! (i + 2) = b"
      proof (cases i)
        case 0
        then show ?thesis by simp
      next
        case (Suc j)
        with i a 2 show ?thesis by simp
      qed
    qed
  qed
qed

text \<open>
  Claim C8. For every commit whose hash string has at least 6 characters (a real hash
  has 40), the rendering succeeds, the abbreviated hash in it is the first 6
  characters of the full hash string, and in the rendered message every newline is
  followed by two tab characters.
\<close>

theorem commitBrief_format:
  assumes "6 \<le> length (Hash c)"
  shows "commitBrief env c =
           ([CHR 0x09] @ Color env ''140'' (Format env (When (Committer c))) @ '' ''
              @ Color env ''104'' (take 6 (Hash c)) @ '' ''
              @ Color env ''111'' (Signature_String (Author c)) @ [CHR 0x0A, CHR 0x09, CHR 0x09]
              @ Color env ''108'' (replaceAll (Message c) [CHR 0x0A] [CHR 0x0A, CHR 0x09, CHR 0x09])
              @ [CHR 0x0A],
            None)
       \<and> (\<forall>i<length (replaceAll (Message c) [CHR 0x0A] [CHR 0x0A, CHR 0x09, CHR 0x09]).
             replaceAll (Message c) [CHR 0x0A] [CHR 0x0A, CHR 0x09, CHR 0x09] ! i = CHR 0x0A \<longrightarrow>
               i + 2 < length (replaceAll (Message c) [CHR 0x0A] [CHR 0x0A, CHR 0x09, CHR 0x09])
             \<and> replaceAll (Message c) [CHR 0x0A] [CHR 0x0A, CHR 0x09, CHR 0x09] ! (i + 1) = CHR 0x09
             \<and> replaceAll (Message c) [CHR 0x0A] [CHR 0x0A, CHR 0x09, CHR 0x09] ! (i + 2) = CHR 0x09)"
proof
  show "commitBrief env c =
           ([CHR 0x09] @ Color env ''140'' (Format env (When (Committer c))) @ '' ''
              @ Color env ''104'' (take 6 (Hash c)) @ '' ''
              @ Color env ''111'' (Signature_String (Author c)) @ [CHR 0x0A, CHR 0x09, CHR 0x09]
              @ Color env ''108'' (replaceAll (Message c) [CHR 0x0A] [CHR 0x0A, CHR 0x09, CHR 0x09])
              @ [CHR 0x0A],
            None)"
    using assms by (simp add: commitBrief_def)
next
  have ne: "CHR 0x09 \<noteq> CHR 0x0A" by simp
  show "\<forall>i<length (replaceAll (Message c) [CHR 0x0A] [CHR 0x0A, CHR 0x09, CHR 0x09]).
             replaceAll (Message c) [CHR 0x0A] [CHR 0x0A, CHR 0x09, CHR 0x09] ! i = CHR 0x0A \<longrightarrow>
               i + 2 < length (replaceAll (Message c) [CHR 0x0A] [CHR 0x0A, CHR 0x09, CHR 0x09])
             \<and> replaceAll (Message c) [CHR 0x0A] [CHR 0x0A, CHR 0x09, CHR 0x09] ! (i + 1) = CHR 0x09
             \<and> replaceAll (Message c) [CHR 0x0A] [CHR 0x0A, CHR 0x09, CHR 0x09] ! (i + 2) = CHR 0x09"
    unfolding replaceAll_char by (rule newlines_indented[OF ne])
qed

theorem commitBrief_format_witness:
  "6 \<le> length (Hash commit_b)
   \<and> commitBrief env0 commit_b
       = ([CHR 0x09] @ ''2024-05-01 b2b2b2 dev <dev@example.org>''
            @ [CHR 0x0A, CHR 0x09, CHR 0x09, CHR ''x'', CHR 0x0A, CHR 0x09, CHR 0x09,
               CHR ''y'', CHR 0x0A, CHR 0x09, CHR 0x09, CHR 0x0A],
          None)
   \<and> replaceAll (Message commit_b) [CHR 0x0A] [CHR 0x0A, CHR 0x09, CHR 0x09] ! 1 = CHR 0x0A
   \<and> replaceAll (Message commit_b) [CHR 0x0A] [CHR 0x0A, CHR 0x09, CHR 0x09] ! 2 = CHR 0x09
   \<and> replaceAll (Message commit_b) [CHR 0x0A] [CHR 0x0A, CHR 0x09, CHR 0x09] ! 3 = CHR 0x09"
proof -
  have len: "6 \<le> length (Hash commit_b)"
    by (simp add: fixture_defs)
  have m: "replaceAll (Message commit_b) [CHR 0x0A] [CHR 0x0A, CHR 0x09, CHR 0x09]
             = [CHR ''x'', CHR 0x0A, CHR 0x09, CHR 0x09, CHR ''y'', CHR 0x0A, CHR 0x09, CHR 0x09]"
    by (simp add: fixture_defs)
  have at1: "(1::nat) < length (replaceAll (Message commit_b) [CHR 0x0A] [CHR 0x0A, CHR 0x09, CHR 0x09])"
    and nl: "replaceAll (Message commit_b) [CHR 0x0A] [CHR 0x0A, CHR 0x09, CHR 0x09] ! 1 = CHR 0x0A"
    by (simp_all add: m)
  from commitBrief_format [OF len, of env0]
  have r: "commitBrief env0 commit_b =
           ([CHR 0x09] @ Color env0 ''140'' (Format env0 (When (Committer commit_b))) @ '' ''
              @ Color env0 ''104'' (take 6 (Hash commit_b)) @ '' ''
              @ Color env0 ''111'' (Signature_String (Author commit_b)) @ [CHR 0x0A, CHR 0x09, CHR 0x09]
              @ Color env0 ''108'' (replaceAll (Message commit_b) [CHR 0x0A] [CHR 0x0A, CHR 0x09, CHR 0x09])
              @ [CHR 0x0A],
            None)"
    and ind: "\<forall>i<length (replaceAll (Message commit_b) [CHR 0x0A] [CHR 0x0A, CHR 0x09, CHR 0x09]).
             replaceAll (Message commit_b) [CHR 0x0A] [CHR 0x0A, CHR 0x09, CHR 0x09] ! i = CHR 0x0A \<longrightarrow>
               i + 2 < length (replaceAll (Message commit_b) [CHR 0x0A] [CHR 0x0A, CHR 0x09, CHR 0x09])
             \<and> replaceAll (Message commit_b) [CHR 0x0A] [CHR 0x0A, CHR 0x09, CHR 0x09] ! (i + 1) = CHR 0x09
             \<and> replaceAll (Message commit_b) [CHR 0x0A] [CHR 0x0A, CHR 0x09, CHR 0x09] ! (i + 2) = CHR 0x09"
    by blast+
  from ind at1 nl
  have tabs: "replaceAll (Message commit_b) [CHR 0x0A] [CHR 0x0A, CHR 0x09, CHR 0x09] ! (1 + 1) = CHR 0x09
      \<and> replaceAll (Message commit_b) [CHR 0x0A] [CHR 0x0A, CHR 0x09, CHR 0x09] ! (1 + 2) = CHR 0x09"
    by blast
  have r': "commitBrief env0 commit_b
       = ([CHR 0x09] @ ''2024-05-01 b2b2b2 dev <dev@example.org>''
            @ [CHR 0x0A, CHR 0x09, CHR 0x09, CHR ''x'', CHR 0x0A, CHR 0x09, CHR 0x09,
               CHR ''y'', CHR 0x0A, CHR 0x09, CHR 0x09, CHR 0x0A],
          None)"
    unfolding r m by (simp add: fixture_defs Signature_String_def)
  from tabs have t2: "replaceAll (Message commit_b) [CHR 0x0A] [CHR 0x0A, CHR 0x09, CHR 0x09] ! 2 = CHR 0x09"
    and t3: "replaceAll (Message commit_b) [CHR 0x0A] [CHR 0x0A, CHR 0x09, CHR 0x09] ! 3 = CHR 0x09"
    by (simp_all add: numeral_2_eq_2 numeral_3_eq_3)
  from len r' nl t2 t3 show ?thesis by blast
qed

section \<open>The worker and the error of the enumeration\<close>

text \<open>
  Claim C10. Once the worker has reached \<^verbatim>\<open>GetGitLog\<close>, the error it returns plays
  no part: whatever \<open>err\<close> is, in particular an error met after some commits were
  counted, a positive count makes the worker set the restart flag, print the header,
  the path and the text accumulated so far, and return normally.
\<close>

theorem worker_discards_log_error:
  assumes "disk w p = Inr r"
    and "Head r = Inr head"
    and "Remote r ''origin'' = Inr (url # rest)"
    and "CreateOrModifyGitTag r TagName head = (Inr tag, r1)"
    and "PullGitChanges r1 step = ((changed, None), r2)"
    and "GetGitLog env r2 tag 0 = Some (l, err, n)"
    and "0 < n"
  shows "UpdateEmacsStraightRepo env step p w =
           (Done n,
            w\<lparr>disk := (disk w)(p := Inr r2),
              restartEmacsIsNeeded := True,
              stdout := stdout w @ [Fetched url n, LocalPath p, LogText l],
              trace := trace w @ [WorkerDone p]\<rparr>)"
  using assms by (simp add: UpdateEmacsStraightRepo_def)

text \<open>
  An instance, on a shallow clone: the pull fast-forwards the head from \<open>commit_b\<close>
  to \<open>commit_c\<close>; the walk yields \<open>commit_c\<close>, which is counted and rendered,
  then \<open>commit_b\<close>, and fails on the parent of \<open>commit_b\<close>, which was never
  fetched.
\<close>

theorem worker_discards_log_error_witness:
  "fst (snd (the (GetGitLog env0
         (snd (PullGitChanges (snd (CreateOrModifyGitTag repo_shallow_b TagName head_b))
                 (Advance [commit_c] ''c3c3c3c3'' None)))
         (Some \<lparr>ref_Name = ''refs/tags/Updated.At'', ref_Hash = ''b2b2b2b2''\<rparr>) 0)))
     = Some ErrObjectNotFound
   \<and> fst (UpdateEmacsStraightRepo env0 (Advance [commit_c] ''c3c3c3c3'' None) ''/r/one''
            (world_of (no_disk(''/r/one'' := Inr repo_shallow_b)))) = Done 1
   \<and> restartEmacsIsNeeded (snd (UpdateEmacsStraightRepo env0 (Advance [commit_c] ''c3c3c3c3'' None) ''/r/one''
            (world_of (no_disk(''/r/one'' := Inr repo_shallow_b)))))
   \<and> stdout (snd (UpdateEmacsStraightRepo env0 (Advance [commit_c] ''c3c3c3c3'' None) ''/r/one''
            (world_of (no_disk(''/r/one'' := Inr repo_shallow_b)))))
       = [Fetched ''https://example.org/x.git'' 1, LocalPath ''/r/one'',
          LogText ([CHR 0x09] @ ''2024-05-01 c3c3c3 dev <dev@example.org>''
                     @ [CHR 0x0A, CHR 0x09, CHR 0x09] @ ''third'' @ [CHR 0x0A])]"
proof -
  let ?w = "world_of (no_disk(''/r/one'' := Inr repo_shallow_b))"
  let ?step = "Advance [commit_c] ''c3c3c3c3'' None"
  let ?tag = "\<lparr>ref_Name = ''refs/tags/Updated.At'', ref_Hash = ''b2b2b2b2''\<rparr>"
  let ?r1 = "snd (CreateOrModifyGitTag repo_shallow_b TagName head_b)"
  let ?r2 = "snd (PullGitChanges ?r1 ?step)"
  let ?l = "[CHR 0x09] @ ''2024-05-01 c3c3c3 dev <dev@example.org>''
                     @ [CHR 0x0A, CHR 0x09, CHR 0x09] @ ''third'' @ [CHR 0x0A]"
  have d: "disk ?w ''/r/one'' = Inr repo_shallow_b"
    by (simp add: world_of_def)
  have h: "Head repo_shallow_b = Inr head_b"
    by (simp add: store_defs fixture_defs)
  have rr: "Remote repo_shallow_b ''origin'' = Inr (''https://example.org/x.git'' # [])"
    by (simp add: Remote_def fixture_defs)
  have t: "CreateOrModifyGitTag repo_shallow_b TagName head_b = (Inr (Some ?tag), ?r1)"
    by (simp add: prod_eq_iff CreateOrModifyGitTag_def store_defs fixture_defs)
  have pl: "PullGitChanges ?r1 ?step = ((True, None), ?r2)"
    by (simp add: prod_eq_iff CreateOrModifyGitTag_def PullGitChanges_def Worktree_Pull_def
        isFastForward_def CommitObject_def store_defs fixture_defs)
  have lg: "GetGitLog env0 ?r2 (Some ?tag) 0 = Some (?l, Some ErrObjectNotFound, 1)"
    by (simp add: CreateOrModifyGitTag_def PullGitChanges_def Worktree_Pull_def
        isFastForward_def run_defs store_defs fixture_defs time_defs)
  have run: "UpdateEmacsStraightRepo env0 ?step ''/r/one'' ?w =
           (Done 1,
            ?w\<lparr>disk := (disk ?w)(''/r/one'' := Inr ?r2),
              restartEmacsIsNeeded := True,
              stdout := stdout ?w @ [Fetched ''https://example.org/x.git'' 1, LocalPath ''/r/one'', LogText ?l],
              trace := trace ?w @ [WorkerDone ''/r/one'']\<rparr>)"
    by (rule worker_discards_log_error [OF d h rr t pl lg]) simp
  show ?thesis
    unfolding run lg by (simp add: world_of_def)
qed

section \<open>How one run changes a repository\<close>







text \<open>The marker operation either leaves the repository as it is or sets the marker to
  the hash of the head it was given; a reference it returns carries that hash.\<close>

lemma CreateOrModifyGitTag_step:
  assumes "CreateOrModifyGitTag r TagName head = (res, r1)"
  shows "(r1 = r \<or> r1 = r\<lparr>refs := (refs r)(NewTagReferenceName TagName \<mapsto> ref_Hash head)\<rparr>)
       \<and> (\<forall>tag. res = Inr (Some tag) \<longrightarrow>
             ref_Hash tag = ref_Hash head
           \<and> r1 = r\<lparr>refs := (refs r)(NewTagReferenceName TagName \<mapsto> ref_Hash head)\<rparr>)"
  using assms
  by (auto simp: CreateOrModifyGitTag_def Tag_def Join_TagName CreateTag_def Storer_Reference_def
      Storer_SetReference_def NewHashReference_def Let_def
      split: sum.splits option.splits if_splits prod.splits)


lemma Head_hash: "Head r = Inr head \<Longrightarrow> head_hash r = Some (ref_Hash head)"
  by (auto simp: Head_def head_hash_def Storer_Reference_def NewHashReference_def split: option.splits)





section \<open>The marker across runs\<close>





section \<open>A second run with nothing new\<close>

lemma Log_nothing:
  assumes "Log r t = Inr (cs, e)"
    and "Head r = Inr head"
    and "\<forall>d x. reach (objects r) (ref_Hash head) x \<and> CommitObject (objects r) x = Inr d
            \<longrightarrow> Before (When (Committer d)) t"
  shows "cs = []"
proof -
  from assms(1,2) obtain c where c: "CommitObject (objects r) (ref_Hash head) = Inr c"
    by (auto simp: Log_def split: sum.splits)
  have hc: "Hash c = ref_Hash head" using c by (rule CommitObject_Hash)
  obtain ys e0 where w: "walk (objects r) {} [[ref_Hash head]] = (ys, e0)"
    by (cases "walk (objects r) {} [[ref_Hash head]]")
  from assms(1,2) c hc w have cs: "cs = filter (\<lambda>d. \<not> Before (When (Committer d)) t) ys"
    by (auto simp: Log_def)
  have "Before (When (Committer y)) t" if y: "y \<in> set ys" for y
  proof -
    from walk_sound[OF w] y have "reach (objects r) (ref_Hash head) (Hash y)" by auto
    moreover from walk_stored[OF w] y have "CommitObject (objects r) (Hash y) = Inr y"
      by (simp add: CommitObject_Inr)
    ultimately show ?thesis using assms(3) by blast
  qed
  then show ?thesis unfolding cs by (simp add: filter_empty_conv)
qed

lemma GetGitLog_nothing:
  assumes "GetGitLog env r (Some tag) 0 = Some (l, err, n)"
    and "\<forall>head. Head r = Inr head \<longrightarrow> ref_Hash head = ref_Hash tag"
    and "\<forall>c d x. CommitObject (objects r) (ref_Hash tag) = Inr c
            \<and> reach (objects r) (ref_Hash tag) x \<and> CommitObject (objects r) x = Inr d
            \<longrightarrow> Before (When (Committer d)) (Add (When (Committer c)) Second)"
  shows "n = 0"
proof (cases "CommitObject (objects r) (ref_Hash tag)")
  case (Inl e)
  with assms(1) show ?thesis by (simp add: GetGitLog_def)
next
  case (Inr c)
  show ?thesis
  proof (cases "Log r (Add (When (Committer c)) Second)")
    case (Inl e)
    with assms(1) Inr show ?thesis by (simp add: GetGitLog_def)
  next
    case lg: (Inr res)
    obtain cs e where res: "res = (cs, e)" by (cases res)
    from lg res have lg': "Log r (Add (When (Committer c)) Second) = Inr (cs, e)" by simp
    then obtain head where hd: "Head r = Inr head"
      by (auto simp: Log_def split: sum.splits)
    with assms(2) have hh: "ref_Hash head = ref_Hash tag" by simp
    have "\<forall>d x. reach (objects r) (ref_Hash head) x \<and> CommitObject (objects r) x = Inr d
            \<longrightarrow> Before (When (Committer d)) (Add (When (Committer c)) Second)"
      using assms(3) Inr hh by simp
    from Log_nothing[OF lg' hd this] have "cs = []" .
    with assms(1) Inr lg' show ?thesis by (simp add: GetGitLog_def)
  qed
qed

lemma GetGitLog_nil: "GetGitLog env r None n = None"
  by (simp add: GetGitLog_def)

text \<open>What a worker that returns has gone through.\<close>

text \<open>What a pull leaves untouched.\<close>

lemma Worktree_Pull_frame:
  assumes "Worktree_Pull r s = (err, r')"
  shows "HEAD r' = HEAD r \<and> bare r' = bare r \<and> remotes r' = remotes r
       \<and> ref_read_fault r' = ref_read_fault r \<and> ref_write_fault r' = ref_write_fault r
       \<and> (refs r (HEAD r) \<noteq> None \<longrightarrow> refs r' (HEAD r) \<noteq> None)
       \<and> (\<forall>n. n \<noteq> HEAD r \<longrightarrow> refs r' n = refs r n)"
  using assms
  by (auto simp: Worktree_Pull_def Let_def Storer_SetReference_def NewHashReference_def
      split: pull_step.splits sum.splits option.splits if_splits prod.splits)

text \<open>Where the marker operation has succeeded once, it succeeds again on any
  repository with the same I/O faults in which the marker exists.\<close>

lemma CreateOrModifyGitTag_again:
  assumes "CreateOrModifyGitTag r TagName head = (Inr (Some tag), ra)"
    and "ref_read_fault r' = ref_read_fault r"
    and "ref_write_fault r' = ref_write_fault r"
    and "refs r' (NewTagReferenceName TagName) \<noteq> None"
  shows "\<exists>tag' rc. CreateOrModifyGitTag r' TagName head' = (Inr (Some tag'), rc)"
  using assms
  by (auto simp: CreateOrModifyGitTag_def Tag_def Join_TagName CreateTag_def Storer_Reference_def
      Storer_SetReference_def NewHashReference_def Let_def
      split: sum.splits option.splits if_splits prod.splits)

lemma run_Done_full:
  assumes "UpdateEmacsStraightRepo env s p w = (Done n, w')"
  shows "\<exists>r head urls tag ra changed rb l err.
           disk w p = Inr r \<and> Head r = Inr head \<and> Remote r ''origin'' = Inr urls
         \<and> CreateOrModifyGitTag r TagName head = (Inr (Some tag), ra)
         \<and> PullGitChanges ra s = ((changed, None), rb)
         \<and> GetGitLog env rb (Some tag) 0 = Some (l, err, n)
         \<and> disk w' p = Inr rb"
proof -
  have "\<exists>r head urls tago ra changed rb l err.
           disk w p = Inr r \<and> Head r = Inr head \<and> Remote r ''origin'' = Inr urls
         \<and> CreateOrModifyGitTag r TagName head = (Inr tago, ra)
         \<and> PullGitChanges ra s = ((changed, None), rb)
         \<and> GetGitLog env rb tago 0 = Some (l, err, n)
         \<and> disk w' p = Inr rb"
    using assms
    by (auto simp: UpdateEmacsStraightRepo_def Let_def
        split: sum.splits prod.splits option.splits list.splits if_splits)
  then obtain r head urls tago ra changed rb l err where a: "disk w p = Inr r" "Head r = Inr head"
    "Remote r ''origin'' = Inr urls"
    "CreateOrModifyGitTag r TagName head = (Inr tago, ra)"
    "PullGitChanges ra s = ((changed, None), rb)"
    "GetGitLog env rb tago 0 = Some (l, err, n)"
    "disk w' p = Inr rb"
    by blast
  from a(6) obtain tag where "tago = Some tag"
    by (cases tago) (simp_all add: GetGitLog_nil)
  with a show ?thesis by blast
qed

text \<open>After a run that returned, a run whose pull reports already-up-to-date gets as
  far as the enumeration.\<close>

lemma run_again:
  assumes "UpdateEmacsStraightRepo env s1 p w0 = (Done n1, w1)"
  shows "\<exists>r1 head urls tag rc l err n.
           disk w1 p = Inr r1 \<and> Head r1 = Inr head \<and> Remote r1 ''origin'' = Inr urls
         \<and> CreateOrModifyGitTag r1 TagName head = (Inr (Some tag), rc)
         \<and> PullGitChanges rc UpToDate = ((False, None), rc)
         \<and> GetGitLog env rc (Some tag) 0 = Some (l, err, n)"
proof -
  from run_Done_full[OF assms]
  obtain r0 head0 urls tag0 ra changed rb where d0: "disk w0 p = Inr r0"
    and hd0: "Head r0 = Inr head0" and rem0: "Remote r0 ''origin'' = Inr urls"
    and tg0: "CreateOrModifyGitTag r0 TagName head0 = (Inr (Some tag0), ra)"
    and pl0: "PullGitChanges ra s1 = ((changed, None), rb)"
    and d1: "disk w1 p = Inr rb"
    by blast
  from CreateOrModifyGitTag_step[OF tg0]
  have ra: "ra = r0\<lparr>refs := (refs r0)(NewTagReferenceName TagName \<mapsto> ref_Hash head0)\<rparr>"
    by simp
  from pl0 have nb: "\<not> bare ra" and rb: "rb = snd (Worktree_Pull ra s1)"
    by (auto simp: PullGitChanges_def split: if_splits prod.splits)
  obtain e where wp: "Worktree_Pull ra s1 = (e, rb)"
    using rb by (cases "Worktree_Pull ra s1") simp
  from hd0 have rf0: "ref_read_fault r0 (HEAD r0) = None" and h0: "refs r0 (HEAD r0) \<noteq> None"
    by (auto simp: Head_def Storer_Reference_def split: option.splits)
  from h0 have ha: "refs ra (HEAD ra) \<noteq> None" by (simp add: ra)
  have ta: "refs ra (NewTagReferenceName TagName) \<noteq> None" by (simp add: ra)
  from Worktree_Pull_frame[OF wp]
  have H: "HEAD rb = HEAD ra" and B: "bare rb = bare ra" and R: "remotes rb = remotes ra"
    and RF: "ref_read_fault rb = ref_read_fault ra" and WF: "ref_write_fault rb = ref_write_fault ra"
    and hb: "refs ra (HEAD ra) \<noteq> None \<longrightarrow> refs rb (HEAD ra) \<noteq> None"
    and oth: "\<forall>n. n \<noteq> HEAD ra \<longrightarrow> refs rb n = refs ra n"
    by blast+
  from hb ha obtain h1 where h1: "refs rb (HEAD rb) = Some h1" by (auto simp: H)
  have "ref_read_fault rb (HEAD rb) = None" using rf0 by (simp add: RF H ra)
  with h1 have hd1: "Head rb = Inr (NewHashReference (HEAD rb) h1)"
    by (simp add: Head_def Storer_Reference_def)
  have rem1: "Remote rb ''origin'' = Inr urls"
    using rem0 by (simp add: Remote_def R ra)
  have tb: "refs rb (NewTagReferenceName TagName) \<noteq> None"
  proof (cases "NewTagReferenceName TagName = HEAD ra")
    case True
    with hb ha show ?thesis by simp
  next
    case False
    with oth ta show ?thesis by simp
  qed
  have "ref_read_fault rb = ref_read_fault r0" "ref_write_fault rb = ref_write_fault r0"
    by (simp_all add: RF WF ra)
  from CreateOrModifyGitTag_again[OF tg0 this tb]
  obtain tag1 rc where tg1: "CreateOrModifyGitTag rb TagName (NewHashReference (HEAD rb) h1) = (Inr (Some tag1), rc)"
    by blast
  from CreateOrModifyGitTag_step[OF tg1] have "bare rc = bare rb" by auto
  with nb B have "\<not> bare rc" by simp
  then have pl1: "PullGitChanges rc UpToDate = ((False, None), rc)"
    by (simp add: PullGitChanges_def Worktree_Pull_def)
  obtain l err n where lg: "GetGitLog env rc (Some tag1) 0 = Some (l, err, n)"
    by (cases "GetGitLog env rc (Some tag1) 0") (auto simp: GetGitLog_def)
  from d1 hd1 rem1 tg1 pl1 lg show ?thesis by blast
qed

text \<open>
  Claim C6, as the code has it. Let a first run of the worker return and leave the
  repository \<open>r1\<close>, with head \<open>h\<close>, and let every stored commit reachable from
  \<open>h\<close>, the commit of \<open>h\<close> included, have a committer time before
  \<^verbatim>\<open>When.Add(time.Second)\<close> of the head's commit, in the sense of \<^verbatim>\<open>Time.Before\<close>.
  When the worker runs again and the pull reports already-up-to-date, it returns, and
  it counts no commit. (The hypothesis fails for a head whose committer time is the
  largest instant, where \<^verbatim>\<open>Add\<close> adds nothing.)
\<close>

theorem second_run_counts_nothing:
  assumes "UpdateEmacsStraightRepo env s1 p w0 = (Done n1, w1)"
    and "disk w1 p = Inr r1"
    and "head_hash r1 = Some h"
    and "\<forall>c d x. CommitObject (objects r1) h = Inr c
            \<and> reach (objects r1) h x \<and> CommitObject (objects r1) x = Inr d
            \<longrightarrow> Before (When (Committer d)) (Add (When (Committer c)) Second)"
  shows "fst (UpdateEmacsStraightRepo env UpToDate p w1) = Done 0"
proof -
  from run_again[OF assms(1)] assms(2)
  obtain head urls tag rc l err n where hd: "Head r1 = Inr head"
    and rem: "Remote r1 ''origin'' = Inr urls"
    and tg: "CreateOrModifyGitTag r1 TagName head = (Inr (Some tag), rc)"
    and pl: "PullGitChanges rc UpToDate = ((False, None), rc)"
    and lg: "GetGitLog env rc (Some tag) 0 = Some (l, err, n)"
    by auto
  from Head_hash[OF hd] assms(3) have hh: "ref_Hash head = h" by simp
  from CreateOrModifyGitTag_step[OF tg] hh
  have th: "ref_Hash tag = h"
    and rc: "rc = r1\<lparr>refs := (refs r1)(NewTagReferenceName TagName \<mapsto> h)\<rparr>"
    by simp_all
  have ob: "objects rc = objects r1" by (simp add: rc)
  have heads: "\<forall>head'. Head rc = Inr head' \<longrightarrow> ref_Hash head' = ref_Hash tag"
    using assms(3) th
    by (auto simp: rc Head_def head_hash_def Storer_Reference_def NewHashReference_def
        split: option.splits if_splits)
  have mono: "\<forall>c d x. CommitObject (objects rc) (ref_Hash tag) = Inr c
            \<and> reach (objects rc) (ref_Hash tag) x \<and> CommitObject (objects rc) x = Inr d
            \<longrightarrow> Before (When (Committer d)) (Add (When (Committer c)) Second)"
    using assms(4) by (simp add: ob th)
  from GetGitLog_nothing[OF lg heads mono] have "n = 0" .
  with assms(2) hd rem tg pl lg show ?thesis
    by (simp add: UpdateEmacsStraightRepo_def)
qed

theorem second_run_counts_nothing_witness:
  "disk (snd (UpdateEmacsStraightRepo env0 (Advance [commit_c] ''c3c3c3c3'' None) ''/r/one'' (world_of disk_one)))
      ''/r/one'' = Inr (snd (PullGitChanges (snd (CreateOrModifyGitTag repo_ab TagName head_b))
                               (Advance [commit_c] ''c3c3c3c3'' None)))
   \<and> fst (UpdateEmacsStraightRepo env0 (Advance [commit_c] ''c3c3c3c3'' None) ''/r/one'' (world_of disk_one))
       = Done 1
   \<and> fst (UpdateEmacsStraightRepo env0 UpToDate ''/r/one''
            (snd (UpdateEmacsStraightRepo env0 (Advance [commit_c] ''c3c3c3c3'' None) ''/r/one''
                    (world_of disk_one))))
       = Done 0"
proof -
  let ?s1 = "Advance [commit_c] ''c3c3c3c3'' None"
  let ?w1 = "snd (UpdateEmacsStraightRepo env0 ?s1 ''/r/one'' (world_of disk_one))"
  let ?r1 = "snd (PullGitChanges (snd (CreateOrModifyGitTag repo_ab TagName head_b)) ?s1)"
  have d1: "disk ?w1 ''/r/one'' = Inr ?r1"
    by (simp add: main_defs run_defs store_defs fixture_defs time_defs)
  have out1: "fst (UpdateEmacsStraightRepo env0 ?s1 ''/r/one'' (world_of disk_one)) = Done 1"
    by (simp add: main_defs run_defs store_defs fixture_defs time_defs)
  have hh: "head_hash ?r1 = Some ''c3c3c3c3''"
    by (simp add: main_defs head_hash_def store_defs fixture_defs CommitObject_def)
  have ob: "objects ?r1 = [commit_a, commit_b, commit_c]"
    by (simp add: main_defs store_defs fixture_defs CommitObject_def)
  have c: "CommitObject (objects ?r1) ''c3c3c3c3'' = Inr commit_c"
    unfolding ob by (simp add: CommitObject_def fixture_defs)
  have "Before (When (Committer d)) (Add (When (Committer commit_c)) Second)"
    if "CommitObject (objects ?r1) x = Inr d" for d x
  proof -
    from that have "d \<in> set (objects ?r1)"
      by (auto simp: CommitObject_Inr find_Some_iff)
    then have "d = commit_a \<or> d = commit_b \<or> d = commit_c"
      unfolding ob by simp
    then show ?thesis
      by (auto simp: fixture_defs time_defs)
  qed
  with c have mono: "\<forall>c d x. CommitObject (objects ?r1) ''c3c3c3c3'' = Inr c
            \<and> reach (objects ?r1) ''c3c3c3c3'' x \<and> CommitObject (objects ?r1) x = Inr d
            \<longrightarrow> Before (When (Committer d)) (Add (When (Committer c)) Second)"
    by auto
  have pair: "UpdateEmacsStraightRepo env0 ?s1 ''/r/one'' (world_of disk_one) = (Done 1, ?w1)"
    using out1 by (simp add: prod_eq_iff)
  from second_run_counts_nothing [OF pair d1 hh mono]
  have "fst (UpdateEmacsStraightRepo env0 UpToDate ''/r/one'' ?w1) = Done 0" .
  with d1 out1 show ?thesis by blast
qed

text \<open>
  The claim as stated fails on a history whose committer times do not grow with the
  ancestry: the head \<open>commit_skew\<close> carries an earlier time than its parent. Two runs
  in a row, both with nothing new on the remote; the second run counts one commit. It
  fails as well for a head whose committer time is the largest instant: the second run
  counts the head's commit.
\<close>

theorem second_run_skew_counterexample:
  "fst (UpdateEmacsStraightRepo env0 UpToDate ''/r/one''
         (snd (UpdateEmacsStraightRepo env0 UpToDate ''/r/one''
                 (world_of (no_disk(''/r/one'' := Inr repo_skew))))))
     = Done 1
   \<and> fst (UpdateEmacsStraightRepo env0 UpToDate ''/r/one''
         (snd (UpdateEmacsStraightRepo env0 UpToDate ''/r/one''
                 (world_of (no_disk(''/r/one'' := Inr repo_last))))))
     = Done 1"
  by (simp add: main_defs run_defs store_defs fixture_defs time_defs)
end
